theory Spec2Isabelle
  imports Main "HOL-Library.Word"
begin

unbundle bit_operations_syntax

section \<open>Machine types and error values\<close>

type_synonym byte = "8 word"
type_synonym uint16 = "16 word"
type_synonym uint64 = "64 word"

text \<open>
  The error values of \<^verbatim>\<open>errors.go\<close>, together with \<^verbatim>\<open>ErrUnknownType\<close> (returned
  by \<^verbatim>\<open>Parse\<close>) and the two errors \<^verbatim>\<open>io.ReadFull\<close> produces itself.
\<close>

datatype error =
    ErrDataSize
  | ErrInvalidCharacters
  | ErrBufferSize
  | ErrBigTime
  | ErrOverflow
  | ErrMonotonicOverflow
  | ErrScanValue
  | ErrUnknownType
  | EOF
  | ErrUnexpectedEOF

text \<open>
  A Go call either returns or panics; a call that contains the sampling loop may also run
  forever, which the functions below express by the value \<open>None\<close> around the outcome.
\<close>

datatype 'a outcome = Panics | Returns 'a

section \<open>The 80-bit counter (numeric.go)\<close>

record uint80 =
  Hi :: uint16
  Lo :: uint64

text \<open>\<^verbatim>\<open>binary.BigEndian\<close>: reading and writing 16- and 64-bit values, most significant
  byte first. The callers below check the slice lengths that make the Go functions panic.\<close>

definition BigEndian_Uint16 :: "byte list \<Rightarrow> uint16" where
  "BigEndian_Uint16 b = (ucast (b ! 1) OR push_bit 8 (ucast (b ! 0)))"

definition BigEndian_Uint64 :: "byte list \<Rightarrow> uint64" where
  "BigEndian_Uint64 b =
     (ucast (b ! 7) OR push_bit 8 (ucast (b ! 6)) OR push_bit 16 (ucast (b ! 5)) OR
      push_bit 24 (ucast (b ! 4)) OR push_bit 32 (ucast (b ! 3)) OR push_bit 40 (ucast (b ! 2)) OR
      push_bit 48 (ucast (b ! 1)) OR push_bit 56 (ucast (b ! 0)))"

definition BigEndian_PutUint16 :: "uint16 \<Rightarrow> byte list" where
  "BigEndian_PutUint16 v = [ucast (drop_bit 8 v), ucast v]"

definition BigEndian_PutUint64 :: "uint64 \<Rightarrow> byte list" where
  "BigEndian_PutUint64 v =
     [ucast (drop_bit 56 v), ucast (drop_bit 48 v), ucast (drop_bit 40 v), ucast (drop_bit 32 v),
      ucast (drop_bit 24 v), ucast (drop_bit 16 v), ucast (drop_bit 8 v), ucast v]"

text \<open>\<^verbatim>\<open>SetBytes\<close> and \<^verbatim>\<open>AppendTo\<close> panic on a slice shorter than ten bytes (the
  bounds check of \<^verbatim>\<open>Uint64\<close> and \<^verbatim>\<open>PutUint64\<close> on \<^verbatim>\<open>bs[2:]\<close>); a longer slice keeps
  its bytes from index 10 on.\<close>

definition SetBytes :: "uint80 \<Rightarrow> byte list \<Rightarrow> uint80 outcome" where
  "SetBytes u bs =
     (if length bs < 10 then Panics
      else Returns (u\<lparr>Hi := BigEndian_Uint16 (take 2 bs), Lo := BigEndian_Uint64 (drop 2 bs)\<rparr>))"

definition AppendTo :: "uint80 \<Rightarrow> byte list \<Rightarrow> byte list outcome" where
  "AppendTo u bs =
     (if length bs < 10 then Panics
      else Returns (BigEndian_PutUint16 (Hi u) @ BigEndian_PutUint64 (Lo u) @ drop 10 bs))"

text \<open>\<^verbatim>\<open>Add\<close> updates the receiver in place and returns the overflow flag; the model
  returns the updated counter with the flag.\<close>

definition Add :: "uint80 \<Rightarrow> uint64 \<Rightarrow> uint80 \<times> bool" where
  "Add u n =
     (let lo = Lo u; hi = Hi u;
          u = u\<lparr>Lo := Lo u + n\<rparr>;
          u = (if Lo u < lo then u\<lparr>Hi := Hi u + 1\<rparr> else u)
      in (u, Hi u < hi))"

definition IsZero80 :: "uint80 \<Rightarrow> bool" where
  "IsZero80 u = (Hi u = 0 \<and> Lo u = 0)"

text \<open>The number a counter stands for: the high word above the 64-bit low word.\<close>

definition val80 :: "uint80 \<Rightarrow> nat" where
  "val80 u = unat (Hi u) * 2 ^ 64 + unat (Lo u)"

section \<open>Entropy sources (entropy.go)\<close>

text \<open>
  An \<^verbatim>\<open>io.Reader\<close> is an interface; the generator wraps the one it is given in a
  \<^verbatim>\<open>bufio.Reader\<close>, which hands on the same bytes in the same order. The model of a
  reader is the sequence it delivers, finite or endless: \<open>src r i\<close> is the byte at position
  \<open>i\<close>, or the error with which the source stops there; \<open>off r\<close> is the position
  reached.
\<close>

record reader =
  src :: "nat \<Rightarrow> error + byte"
  off :: nat

fun read_bytes :: "(nat \<Rightarrow> error + byte) \<Rightarrow> nat \<Rightarrow> nat \<Rightarrow> byte list \<times> error option" where
  "read_bytes s i 0 = ([], None)"
| "read_bytes s i (Suc n) =
     (case s i of
        Inl e \<Rightarrow> ([], Some e)
      | Inr b \<Rightarrow> (let (bs, e) = read_bytes s (Suc i) n in (b # bs, e)))"

text \<open>\<^verbatim>\<open>io.ReadFull(r, buf)\<close> fills \<open>buf\<close> or fails: with the source's error, where
  \<^verbatim>\<open>EOF\<close> after some bytes becomes \<^verbatim>\<open>ErrUnexpectedEOF\<close>. The bytes read before the
  error stay in the buffer. It returns the count and the error, the buffer and the reader.\<close>

definition ReadFull :: "reader \<Rightarrow> byte list \<Rightarrow> (nat \<times> error option) \<times> byte list \<times> reader" where
  "ReadFull r buf =
     (let (bs, e) = read_bytes (src r) (off r) (length buf);
          n = length bs;
          err = (case e of
                   None \<Rightarrow> None
                 | Some e \<Rightarrow> if 0 < n \<and> e = EOF then Some ErrUnexpectedEOF else Some e)
      in ((n, err), bs @ drop n buf, r\<lparr>off := off r + n\<rparr>))"

text \<open>
  The interface \<^verbatim>\<open>rng\<close> has the one method \<^verbatim>\<open>Int63n(n int64) int64\<close>. An
  implementation is modelled by what its \<open>k\<close>-th call answers to the argument \<open>n\<close>
  (\<open>None\<close>: the call panics), and the number of calls made so far.
\<close>

record rng =
  gen :: "nat \<Rightarrow> 64 word \<Rightarrow> 64 word option"
  calls :: nat

definition Int63n :: "rng \<Rightarrow> 64 word \<Rightarrow> (64 word \<times> rng) outcome" where
  "Int63n g n =
     (case gen g (calls g) n of
        None \<Rightarrow> Panics
      | Some v \<Rightarrow> Returns (v, g\<lparr>calls := Suc (calls g)\<rparr>))"

text \<open>The contract of \<^verbatim>\<open>math/rand\<close>'s \<^verbatim>\<open>Int63n\<close>: it panics for \<open>n \<le> 0\<close> and
  returns a value in \<open>[0, n)\<close> otherwise.\<close>

definition math_rand :: "rng \<Rightarrow> bool" where
  "math_rand g =
     (\<forall>k n. if n \<le>s 0 then gen g k n = None
            else (\<exists>v. gen g k n = Some v \<and> 0 \<le>s v \<and> v <s n))"

record MonotonicEntropy =
  Reader :: reader
  ms :: uint64
  inc :: uint64
  entropy :: uint80
  rand :: "byte list"
  rng :: "rng option"

text \<open>\<^verbatim>\<open>Monotonic(entropy, inc)\<close>. The type assertion \<^verbatim>\<open>entropy.(rng)\<close> is the second
  argument: the \<^verbatim>\<open>Int63n\<close> of the given source when it has one.\<close>

definition Monotonic :: "reader \<Rightarrow> rng option \<Rightarrow> uint64 \<Rightarrow> MonotonicEntropy" where
  "Monotonic e e_rng i =
     (let m = \<lparr>Reader = e, ms = 0, inc = i, entropy = \<lparr>Hi = 0, Lo = 0\<rparr>,
               rand = replicate 8 0, rng = None\<rparr>;
          m = (if inc m = 0 then m\<lparr>inc := 0xFFFFFFFF\<rparr> else m);
          m = (case e_rng of Some g \<Rightarrow> m\<lparr>rng := Some g\<rparr> | None \<Rightarrow> m)
      in m)"

text \<open>\<^verbatim>\<open>bits.Len64\<close>: the number of bits needed to write the value, 0 for 0.\<close>

fun bit_length :: "nat \<Rightarrow> nat" where
  "bit_length n = (if n = 0 then 0 else Suc (bit_length (n div 2)))"

declare bit_length.simps [simp del]

definition Len64 :: "uint64 \<Rightarrow> nat" where
  "Len64 x = bit_length (unat x)"

definition LittleEndian_Uint16 :: "byte list \<Rightarrow> 16 word" where
  "LittleEndian_Uint16 b = (ucast (b ! 0) OR push_bit 8 (ucast (b ! 1)))"

definition LittleEndian_Uint32 :: "byte list \<Rightarrow> 32 word" where
  "LittleEndian_Uint32 b =
     (ucast (b ! 0) OR push_bit 8 (ucast (b ! 1)) OR push_bit 16 (ucast (b ! 2)) OR
      push_bit 24 (ucast (b ! 3)))"

definition LittleEndian_Uint64 :: "byte list \<Rightarrow> 64 word" where
  "LittleEndian_Uint64 b =
     (ucast (b ! 0) OR push_bit 8 (ucast (b ! 1)) OR push_bit 16 (ucast (b ! 2)) OR
      push_bit 24 (ucast (b ! 3)) OR push_bit 32 (ucast (b ! 4)) OR push_bit 40 (ucast (b ! 5)) OR
      push_bit 48 (ucast (b ! 6)) OR push_bit 56 (ucast (b ! 7)))"

text \<open>The \<^verbatim>\<open>switch byteLen\<close> of the sampling loop; a length outside 1..8 matches no case
  and leaves the candidate as it was.\<close>

definition candidate :: "nat \<Rightarrow> byte list \<Rightarrow> uint64 \<Rightarrow> uint64" where
  "candidate byteLen rnd i =
     (if byteLen = 1 then ucast (rnd ! 0)
      else if byteLen = 2 then ucast (LittleEndian_Uint16 (take 2 rnd))
      else if byteLen = 3 \<or> byteLen = 4 then ucast (LittleEndian_Uint32 (take 4 rnd))
      else if 5 \<le> byteLen \<and> byteLen \<le> 8 then LittleEndian_Uint64 (take 8 rnd)
      else i)"

text \<open>The loop \<^verbatim>\<open>for inc == 0 || inc >= m.inc\<close> of \<^verbatim>\<open>random\<close>. It need not end: on a
  source whose bytes never give a candidate in range it draws for ever, and the value is
  \<open>None\<close>.\<close>

partial_function (option) random_loop ::
  "nat \<Rightarrow> nat \<Rightarrow> MonotonicEntropy \<Rightarrow> uint64 \<Rightarrow> ((error + uint64) \<times> MonotonicEntropy) option" where
  "random_loop byteLen msbitLen m i =
     (if i = 0 \<or> inc m \<le> i then
        (case ReadFull (Reader m) (take byteLen (rand m)) of
           ((n, Some err), buf, r) \<Rightarrow>
             Some (Inl err, m\<lparr>Reader := r, rand := buf @ drop byteLen (rand m)\<rparr>)
         | ((n, None), buf, r) \<Rightarrow>
             (let rnd = buf @ drop byteLen (rand m);
                  rnd = rnd[0 := rnd ! 0 AND word_of_int (push_bit msbitLen 1 - 1)]
              in random_loop byteLen msbitLen (m\<lparr>Reader := r, rand := rnd\<rparr>)
                   (candidate byteLen rnd i)))
      else Some (Inr (1 + i), m))"

definition random :: "MonotonicEntropy \<Rightarrow> ((error + uint64) \<times> MonotonicEntropy) outcome option" where
  "random m =
     (if inc m \<le> 1 then Some (Returns (Inr 1, m))
      else case rng m of
        Some g \<Rightarrow>
          (case Int63n g (inc m) of
             Panics \<Rightarrow> Some Panics
           | Returns (v, g') \<Rightarrow> Some (Returns (Inr (1 + v), m\<lparr>rng := Some g'\<rparr>)))
      | None \<Rightarrow>
          (let bitLen = Len64 (inc m);
               byteLen = (bitLen + 7) div 8;
               msbitLen = bitLen mod 8;
               msbitLen = (if msbitLen = 0 then 8 else msbitLen)
           in map_option Returns (random_loop byteLen msbitLen m 0)))"

definition increment :: "MonotonicEntropy \<Rightarrow> (error option \<times> MonotonicEntropy) outcome option" where
  "increment m =
     (case random m of
        None \<Rightarrow> None
      | Some Panics \<Rightarrow> Some Panics
      | Some (Returns (Inl err, m')) \<Rightarrow> Some (Returns (Some err, m'))
      | Some (Returns (Inr i, m')) \<Rightarrow>
          (let (u, overflow) = Add (entropy m') i;
               m'' = m'\<lparr>entropy := u\<rparr>
           in if overflow then Some (Returns (Some ErrMonotonicOverflow, m''))
              else Some (Returns (None, m''))))"

text \<open>\<^verbatim>\<open>MonotonicRead(ms, entropy)\<close> returns its error; the model returns with it the
  buffer and the generator as the call leaves them.\<close>

definition MonotonicRead ::
  "MonotonicEntropy \<Rightarrow> uint64 \<Rightarrow> byte list \<Rightarrow> (error option \<times> byte list \<times> MonotonicEntropy) outcome option" where
  "MonotonicRead m t p =
     (if \<not> IsZero80 (entropy m) \<and> ms m = t then
        (case increment m of
           None \<Rightarrow> None
         | Some Panics \<Rightarrow> Some Panics
         | Some (Returns (err, m')) \<Rightarrow>
             (case AppendTo (entropy m') p of
                Panics \<Rightarrow> Some Panics
              | Returns p' \<Rightarrow> Some (Returns (err, p', m'))))
      else
        (case ReadFull (Reader m) p of
           ((n, Some err), p', r) \<Rightarrow> Some (Returns (Some err, p', m\<lparr>Reader := r\<rparr>))
         | ((n, None), p', r) \<Rightarrow>
             (case SetBytes (entropy m) p' of
                Panics \<Rightarrow> Some Panics
              | Returns u \<Rightarrow> Some (Returns (None, p', m\<lparr>Reader := r, ms := t, entropy := u\<rparr>)))))"

text \<open>A run of successful calls of \<^verbatim>\<open>MonotonicRead\<close> for one tick, one after the other:
  each entry is the buffer passed to a call, the buffer as the call left it and the
  generator as the call left it.\<close>

fun calls_ok ::
  "MonotonicEntropy \<Rightarrow> uint64 \<Rightarrow> (byte list \<times> byte list \<times> MonotonicEntropy) list \<Rightarrow> bool" where
  "calls_ok m t [] = True"
| "calls_ok m t ((q, p, m') # cs) =
     (MonotonicRead m t q = Some (Returns (None, p, m')) \<and> calls_ok m' t cs)"

section \<open>Identifiers and their codec (ulid.go)\<close>

text \<open>A \<^verbatim>\<open>ULID\<close> is an array of 16 bytes; text is a string of bytes.\<close>

type_synonym ULID = "byte list"

definition Zero :: ULID where
  "Zero = replicate 16 0"

definition Encoding :: string where
  "Encoding = ''0123456789ABCDEFGHJKMNPQRSTVWXYZ''"

definition EncodedSize :: nat where
  "EncodedSize = 26"

text \<open>The byte to index table; \<open>0xFF\<close> marks a byte outside the alphabet.\<close>

definition dec :: "byte list" where
  "dec = [
      0xFF, 0xFF, 0xFF, 0xFF, 0xFF, 0xFF, 0xFF, 0xFF, 0xFF, 0xFF,
      0xFF, 0xFF, 0xFF, 0xFF, 0xFF, 0xFF, 0xFF, 0xFF, 0xFF, 0xFF,
      0xFF, 0xFF, 0xFF, 0xFF, 0xFF, 0xFF, 0xFF, 0xFF, 0xFF, 0xFF,
      0xFF, 0xFF, 0xFF, 0xFF, 0xFF, 0xFF, 0xFF, 0xFF, 0xFF, 0xFF,
      0xFF, 0xFF, 0xFF, 0xFF, 0xFF, 0xFF, 0xFF, 0xFF, 0x00, 0x01,
      0x02, 0x03, 0x04, 0x05, 0x06, 0x07, 0x08, 0x09, 0xFF, 0xFF,
      0xFF, 0xFF, 0xFF, 0xFF, 0xFF, 0x0A, 0x0B, 0x0C, 0x0D, 0x0E,
      0x0F, 0x10, 0x11, 0xFF, 0x12, 0x13, 0xFF, 0x14, 0x15, 0xFF,
      0x16, 0x17, 0x18, 0x19, 0x1A, 0xFF, 0x1B, 0x1C, 0x1D, 0x1E,
      0x1F, 0xFF, 0xFF, 0xFF, 0xFF, 0xFF, 0xFF, 0x0A, 0x0B, 0x0C,
      0x0D, 0x0E, 0x0F, 0x10, 0x11, 0xFF, 0x12, 0x13, 0xFF, 0x14,
      0x15, 0xFF, 0x16, 0x17, 0x18, 0x19, 0x1A, 0xFF, 0x1B, 0x1C,
      0x1D, 0x1E, 0x1F, 0xFF, 0xFF, 0xFF, 0xFF, 0xFF, 0xFF, 0xFF,
      0xFF, 0xFF, 0xFF, 0xFF, 0xFF, 0xFF, 0xFF, 0xFF, 0xFF, 0xFF,
      0xFF, 0xFF, 0xFF, 0xFF, 0xFF, 0xFF, 0xFF, 0xFF, 0xFF, 0xFF,
      0xFF, 0xFF, 0xFF, 0xFF, 0xFF, 0xFF, 0xFF, 0xFF, 0xFF, 0xFF,
      0xFF, 0xFF, 0xFF, 0xFF, 0xFF, 0xFF, 0xFF, 0xFF, 0xFF, 0xFF,
      0xFF, 0xFF, 0xFF, 0xFF, 0xFF, 0xFF, 0xFF, 0xFF, 0xFF, 0xFF,
      0xFF, 0xFF, 0xFF, 0xFF, 0xFF, 0xFF, 0xFF, 0xFF, 0xFF, 0xFF,
      0xFF, 0xFF, 0xFF, 0xFF, 0xFF, 0xFF, 0xFF, 0xFF, 0xFF, 0xFF,
      0xFF, 0xFF, 0xFF, 0xFF, 0xFF, 0xFF, 0xFF, 0xFF, 0xFF, 0xFF,
      0xFF, 0xFF, 0xFF, 0xFF, 0xFF, 0xFF, 0xFF, 0xFF, 0xFF, 0xFF,
      0xFF, 0xFF, 0xFF, 0xFF, 0xFF, 0xFF, 0xFF, 0xFF, 0xFF, 0xFF,
      0xFF, 0xFF, 0xFF, 0xFF, 0xFF, 0xFF, 0xFF, 0xFF, 0xFF, 0xFF,
      0xFF, 0xFF, 0xFF, 0xFF, 0xFF, 0xFF, 0xFF, 0xFF, 0xFF, 0xFF,
      0xFF, 0xFF, 0xFF, 0xFF, 0xFF, 0xFF]"

text \<open>\<^verbatim>\<open>dec[v[i]]\<close>\<close>

definition dec_at :: "string \<Rightarrow> nat \<Rightarrow> byte" where
  "dec_at v i = dec ! of_char (v ! i)"

text \<open>\<^verbatim>\<open>parse(v, strict, id)\<close> writes through the pointer \<^verbatim>\<open>id\<close> and returns its
  error; the model returns the error and the identifier. The identifier is written \<open>uid\<close>
  throughout, \<open>id\<close> being the identity function of HOL.\<close>

definition parse :: "string \<Rightarrow> bool \<Rightarrow> ULID \<Rightarrow> error option \<times> ULID" where
  "parse v strict uid =
     (if length v \<noteq> EncodedSize then (Some ErrDataSize, uid)
      else if strict \<and>
        (dec_at v 0 = 0xFF \<or>
         dec_at v 1 = 0xFF \<or>
         dec_at v 2 = 0xFF \<or>
         dec_at v 3 = 0xFF \<or>
         dec_at v 4 = 0xFF \<or>
         dec_at v 5 = 0xFF \<or>
         dec_at v 6 = 0xFF \<or>
         dec_at v 7 = 0xFF \<or>
         dec_at v 8 = 0xFF \<or>
         dec_at v 9 = 0xFF \<or>
         dec_at v 10 = 0xFF \<or>
         dec_at v 11 = 0xFF \<or>
         dec_at v 12 = 0xFF \<or>
         dec_at v 13 = 0xFF \<or>
         dec_at v 14 = 0xFF \<or>
         dec_at v 15 = 0xFF \<or>
         dec_at v 16 = 0xFF \<or>
         dec_at v 17 = 0xFF \<or>
         dec_at v 18 = 0xFF \<or>
         dec_at v 19 = 0xFF \<or>
         dec_at v 20 = 0xFF \<or>
         dec_at v 21 = 0xFF \<or>
         dec_at v 22 = 0xFF \<or>
         dec_at v 23 = 0xFF \<or>
         dec_at v 24 = 0xFF \<or>
         dec_at v 25 = 0xFF)
      then (Some ErrInvalidCharacters, uid)
      else if (of_char CHR ''7'' :: nat) < of_char (v ! 0) then (Some ErrOverflow, uid)
      else (None,
        uid[0 := push_bit 5 (dec_at v 0) OR dec_at v 1,
            1 := push_bit 3 (dec_at v 2) OR drop_bit 2 (dec_at v 3),
            2 := push_bit 6 (dec_at v 3) OR push_bit 1 (dec_at v 4) OR drop_bit 4 (dec_at v 5),
            3 := push_bit 4 (dec_at v 5) OR drop_bit 1 (dec_at v 6),
            4 := push_bit 7 (dec_at v 6) OR push_bit 2 (dec_at v 7) OR drop_bit 3 (dec_at v 8),
            5 := push_bit 5 (dec_at v 8) OR dec_at v 9,
            6 := push_bit 3 (dec_at v 10) OR drop_bit 2 (dec_at v 11),
            7 := push_bit 6 (dec_at v 11) OR push_bit 1 (dec_at v 12) OR drop_bit 4 (dec_at v 13),
            8 := push_bit 4 (dec_at v 13) OR drop_bit 1 (dec_at v 14),
            9 := push_bit 7 (dec_at v 14) OR push_bit 2 (dec_at v 15) OR drop_bit 3 (dec_at v 16),
            10 := push_bit 5 (dec_at v 16) OR dec_at v 17,
            11 := push_bit 3 (dec_at v 18) OR drop_bit 2 (dec_at v 19),
            12 := push_bit 6 (dec_at v 19) OR push_bit 1 (dec_at v 20) OR drop_bit 4 (dec_at v 21),
            13 := push_bit 4 (dec_at v 21) OR drop_bit 1 (dec_at v 22),
            14 := push_bit 7 (dec_at v 22) OR push_bit 2 (dec_at v 23) OR drop_bit 3 (dec_at v 24),
            15 := push_bit 5 (dec_at v 24) OR dec_at v 25]))"

definition UnmarshalBinary :: "ULID \<Rightarrow> byte list \<Rightarrow> error option \<times> ULID" where
  "UnmarshalBinary uid data =
     (if length data \<noteq> length uid then (Some ErrDataSize, uid)
      else (None, take (length uid) data @ drop (length data) uid))"

text \<open>The argument of \<^verbatim>\<open>Parse\<close> and \<^verbatim>\<open>ParseStrict\<close> has type \<^verbatim>\<open>any\<close>; the type switch
  tells a \<^verbatim>\<open>ULID\<close>, a string, a byte slice and a \<^verbatim>\<open>[16]byte\<close> from everything else.\<close>

datatype parse_arg =
    OfULID ULID
  | OfString string
  | OfBytes "byte list"
  | OfArray16 "byte list"
  | OfOther

definition Parse :: "parse_arg \<Rightarrow> ULID \<times> error option" where
  "Parse ulid =
     (case ulid of
        OfULID t \<Rightarrow> (t, None)
      | OfString t \<Rightarrow>
          if t = [] then (Zero, None)
          else (let (err, uid) = parse t False Zero in (uid, err))
      | OfBytes t \<Rightarrow> (let (err, uid) = UnmarshalBinary Zero t in (uid, err))
      | OfArray16 t \<Rightarrow> (t, None)
      | OfOther \<Rightarrow> (Zero, Some ErrUnknownType))"

definition ParseStrict :: "parse_arg \<Rightarrow> ULID \<times> error option" where
  "ParseStrict ulid =
     (case ulid of
        OfULID t \<Rightarrow> (t, None)
      | OfString t \<Rightarrow> (let (err, uid) = parse t True Zero in (uid, err))
      | OfBytes t \<Rightarrow> (let (err, uid) = UnmarshalBinary Zero t in (uid, err))
      | OfArray16 t \<Rightarrow> (let (err, uid) = UnmarshalBinary Zero t in (uid, err))
      | OfOther \<Rightarrow> (Zero, Some ErrUnknownType))"

definition MarshalTextTo :: "ULID \<Rightarrow> string \<Rightarrow> error option \<times> string" where
  "MarshalTextTo uid dst =
     (if length dst \<noteq> EncodedSize then (Some ErrBufferSize, dst)
      else (None,
        dst[0 := Encoding ! unat (drop_bit 5 (uid ! 0 AND 224)),
            1 := Encoding ! unat (uid ! 0 AND 31),
            2 := Encoding ! unat (drop_bit 3 (uid ! 1 AND 248)),
            3 := Encoding ! unat (push_bit 2 (uid ! 1 AND 7) OR drop_bit 6 (uid ! 2 AND 192)),
            4 := Encoding ! unat (drop_bit 1 (uid ! 2 AND 62)),
            5 := Encoding ! unat (push_bit 4 (uid ! 2 AND 1) OR drop_bit 4 (uid ! 3 AND 240)),
            6 := Encoding ! unat (push_bit 1 (uid ! 3 AND 15) OR drop_bit 7 (uid ! 4 AND 128)),
            7 := Encoding ! unat (drop_bit 2 (uid ! 4 AND 124)),
            8 := Encoding ! unat (push_bit 3 (uid ! 4 AND 3) OR drop_bit 5 (uid ! 5 AND 224)),
            9 := Encoding ! unat (uid ! 5 AND 31),
            10 := Encoding ! unat (drop_bit 3 (uid ! 6 AND 248)),
            11 := Encoding ! unat (push_bit 2 (uid ! 6 AND 7) OR drop_bit 6 (uid ! 7 AND 192)),
            12 := Encoding ! unat (drop_bit 1 (uid ! 7 AND 62)),
            13 := Encoding ! unat (push_bit 4 (uid ! 7 AND 1) OR drop_bit 4 (uid ! 8 AND 240)),
            14 := Encoding ! unat (push_bit 1 (uid ! 8 AND 15) OR drop_bit 7 (uid ! 9 AND 128)),
            15 := Encoding ! unat (drop_bit 2 (uid ! 9 AND 124)),
            16 := Encoding ! unat (push_bit 3 (uid ! 9 AND 3) OR drop_bit 5 (uid ! 10 AND 224)),
            17 := Encoding ! unat (uid ! 10 AND 31),
            18 := Encoding ! unat (drop_bit 3 (uid ! 11 AND 248)),
            19 := Encoding ! unat (push_bit 2 (uid ! 11 AND 7) OR drop_bit 6 (uid ! 12 AND 192)),
            20 := Encoding ! unat (drop_bit 1 (uid ! 12 AND 62)),
            21 := Encoding ! unat (push_bit 4 (uid ! 12 AND 1) OR drop_bit 4 (uid ! 13 AND 240)),
            22 := Encoding ! unat (push_bit 1 (uid ! 13 AND 15) OR drop_bit 7 (uid ! 14 AND 128)),
            23 := Encoding ! unat (drop_bit 2 (uid ! 14 AND 124)),
            24 := Encoding ! unat (push_bit 3 (uid ! 14 AND 3) OR drop_bit 5 (uid ! 15 AND 224)),
            25 := Encoding ! unat (uid ! 15 AND 31)]))"

text \<open>\<^verbatim>\<open>String\<close> encodes into a fresh buffer of 26 zero bytes.\<close>

definition String :: "ULID \<Rightarrow> string" where
  "String uid = snd (MarshalTextTo uid (replicate EncodedSize (CHR 0x00)))"

definition Time :: "ULID \<Rightarrow> uint64" where
  "Time uid =
     (ucast (uid ! 5) OR push_bit 8 (ucast (uid ! 4)) OR push_bit 16 (ucast (uid ! 3)) OR
      push_bit 24 (ucast (uid ! 2)) OR push_bit 32 (ucast (uid ! 1)) OR push_bit 40 (ucast (uid ! 0)))"

definition maxTime :: uint64 where
  "maxTime = Time ([0xFF, 0xFF, 0xFF, 0xFF, 0xFF, 0xFF] @ replicate 10 0)"

definition SetTime :: "ULID \<Rightarrow> uint64 \<Rightarrow> error option \<times> ULID" where
  "SetTime uid t =
     (if maxTime < t then (Some ErrBigTime, uid)
      else (None,
        uid[0 := ucast (drop_bit 40 t),
           1 := ucast (drop_bit 32 t),
           2 := ucast (drop_bit 24 t),
           3 := ucast (drop_bit 16 t),
           4 := ucast (drop_bit 8 t),
           5 := ucast t]))"

text \<open>\<^verbatim>\<open>bytes.Compare\<close>: lexicographic order of byte strings, as \<open>-1\<close>, \<open>0\<close> or \<open>1\<close>.\<close>

fun bytes_Compare :: "byte list \<Rightarrow> byte list \<Rightarrow> int" where
  "bytes_Compare [] [] = 0"
| "bytes_Compare [] (y # ys) = - 1"
| "bytes_Compare (x # xs) [] = 1"
| "bytes_Compare (x # xs) (y # ys) =
     (if x < y then - 1 else if y < x then 1 else bytes_Compare xs ys)"

definition Compare :: "ULID \<Rightarrow> ULID \<Rightarrow> int" where
  "Compare uid other = bytes_Compare uid other"

text \<open>The entropy argument of \<^verbatim>\<open>New\<close>: \<^verbatim>\<open>nil\<close>, a \<^verbatim>\<open>MonotonicReader\<close>, or any other
  reader.\<close>

datatype entropy_source =
    NoEntropy
  | Mono MonotonicEntropy
  | Plain reader

text \<open>\<^verbatim>\<open>New(ms, entropy)\<close> returns the identifier and the error; the model returns with
  them the entropy source as the call leaves it.\<close>

definition New :: "uint64 \<Rightarrow> entropy_source \<Rightarrow> ((ULID \<times> error option) \<times> entropy_source) outcome option" where
  "New t e =
     (case SetTime Zero t of
        (Some err, uid) \<Rightarrow> Some (Returns ((uid, Some err), e))
      | (None, uid) \<Rightarrow>
          (case e of
             NoEntropy \<Rightarrow> Some (Returns ((uid, None), e))
           | Mono m \<Rightarrow>
               (case MonotonicRead m t (drop 6 uid) of
                  None \<Rightarrow> None
                | Some Panics \<Rightarrow> Some Panics
                | Some (Returns (err, p, m')) \<Rightarrow> Some (Returns ((take 6 uid @ p, err), Mono m')))
           | Plain r \<Rightarrow>
               (case ReadFull r (drop 6 uid) of
                  ((n, err), p, r') \<Rightarrow> Some (Returns ((take 6 uid @ p, err), Plain r')))))"

section \<open>Auxiliary definitions for the codec proofs\<close>

text \<open>The 26 five-bit values that \<^verbatim>\<open>MarshalTextTo\<close> looks up in \<open>Encoding\<close>, and the 16
  bytes that \<^verbatim>\<open>parse\<close> assembles from 26 table values: the same expressions as in the
  two functions, collected into lists.\<close>

definition syms :: "ULID \<Rightarrow> byte list" where
  "syms uid =
     [drop_bit 5 (uid ! 0 AND 224),
      uid ! 0 AND 31,
      drop_bit 3 (uid ! 1 AND 248),
      push_bit 2 (uid ! 1 AND 7) OR drop_bit 6 (uid ! 2 AND 192),
      drop_bit 1 (uid ! 2 AND 62),
      push_bit 4 (uid ! 2 AND 1) OR drop_bit 4 (uid ! 3 AND 240),
      push_bit 1 (uid ! 3 AND 15) OR drop_bit 7 (uid ! 4 AND 128),
      drop_bit 2 (uid ! 4 AND 124),
      push_bit 3 (uid ! 4 AND 3) OR drop_bit 5 (uid ! 5 AND 224),
      uid ! 5 AND 31,
      drop_bit 3 (uid ! 6 AND 248),
      push_bit 2 (uid ! 6 AND 7) OR drop_bit 6 (uid ! 7 AND 192),
      drop_bit 1 (uid ! 7 AND 62),
      push_bit 4 (uid ! 7 AND 1) OR drop_bit 4 (uid ! 8 AND 240),
      push_bit 1 (uid ! 8 AND 15) OR drop_bit 7 (uid ! 9 AND 128),
      drop_bit 2 (uid ! 9 AND 124),
      push_bit 3 (uid ! 9 AND 3) OR drop_bit 5 (uid ! 10 AND 224),
      uid ! 10 AND 31,
      drop_bit 3 (uid ! 11 AND 248),
      push_bit 2 (uid ! 11 AND 7) OR drop_bit 6 (uid ! 12 AND 192),
      drop_bit 1 (uid ! 12 AND 62),
      push_bit 4 (uid ! 12 AND 1) OR drop_bit 4 (uid ! 13 AND 240),
      push_bit 1 (uid ! 13 AND 15) OR drop_bit 7 (uid ! 14 AND 128),
      drop_bit 2 (uid ! 14 AND 124),
      push_bit 3 (uid ! 14 AND 3) OR drop_bit 5 (uid ! 15 AND 224),
      uid ! 15 AND 31]"

definition unsyms :: "byte list \<Rightarrow> ULID" where
  "unsyms d =
     [push_bit 5 (d ! 0) OR d ! 1,
      push_bit 3 (d ! 2) OR drop_bit 2 (d ! 3),
      push_bit 6 (d ! 3) OR push_bit 1 (d ! 4) OR drop_bit 4 (d ! 5),
      push_bit 4 (d ! 5) OR drop_bit 1 (d ! 6),
      push_bit 7 (d ! 6) OR push_bit 2 (d ! 7) OR drop_bit 3 (d ! 8),
      push_bit 5 (d ! 8) OR d ! 9,
      push_bit 3 (d ! 10) OR drop_bit 2 (d ! 11),
      push_bit 6 (d ! 11) OR push_bit 1 (d ! 12) OR drop_bit 4 (d ! 13),
      push_bit 4 (d ! 13) OR drop_bit 1 (d ! 14),
      push_bit 7 (d ! 14) OR push_bit 2 (d ! 15) OR drop_bit 3 (d ! 16),
      push_bit 5 (d ! 16) OR d ! 17,
      push_bit 3 (d ! 18) OR drop_bit 2 (d ! 19),
      push_bit 6 (d ! 19) OR push_bit 1 (d ! 20) OR drop_bit 4 (d ! 21),
      push_bit 4 (d ! 21) OR drop_bit 1 (d ! 22),
      push_bit 7 (d ! 22) OR push_bit 2 (d ! 23) OR drop_bit 3 (d ! 24),
      push_bit 5 (d ! 24) OR d ! 25]"

text \<open>ASCII upper case, the \<open>uppercase\<close> of the specification.\<close>

definition lower_letters :: string where
  "lower_letters = ''abcdefghijklmnopqrstuvwxyz''"

definition upper_letters :: string where
  "upper_letters = ''ABCDEFGHIJKLMNOPQRSTUVWXYZ''"

definition to_upper :: "char \<Rightarrow> char" where
  "to_upper c =
     (case map_of (zip lower_letters upper_letters) c of Some u \<Rightarrow> u | None \<Rightarrow> c)"

text \<open>Concrete inputs used below.\<close>

definition overflow_text :: string where
  "overflow_text = ''80000000000000000000000000''"

definition lower_text :: string where
  "lower_text = ''01bx5zzkbkactav9wevgemmvrz''"

definition vector_id :: ULID where
  "vector_id = [0x01, 0x5F, 0x4B, 0xFF, 0xCD, 0x73, 0x53, 0x34, 0xAD, 0xA7, 0x8E, 0xDC, 0x1D, 0x4A,
     0x6F, 0x1F]"


section \<open>Byte strings as numbers\<close>

text \<open>The number a byte string stands for, most significant byte first, and the \<open>m\<close>
  low base-256 digits of a number in that order.\<close>

fun be_val :: "byte list \<Rightarrow> nat" where
  "be_val [] = 0"
| "be_val (x # xs) = unat x * 256 ^ length xs + be_val xs"

definition digits :: "nat \<Rightarrow> nat \<Rightarrow> byte list" where
  "digits n m = map (\<lambda>k. of_nat (n div 256 ^ k)) (rev [0..<m])"

text \<open>Concrete entropy sources used below: endless sources of the bytes \<open>0xFF\<close>,
  \<open>0x01\<close> and \<open>0x00\<close>.\<close>

definition ff_reader :: reader where
  "ff_reader = \<lparr>src = (\<lambda>i. Inr 0xFF), off = 0\<rparr>"

definition ones_reader :: reader where
  "ones_reader = \<lparr>src = (\<lambda>i. Inr 0x01), off = 0\<rparr>"

definition zeros_reader :: reader where
  "zeros_reader = \<lparr>src = (\<lambda>i. Inr 0), off = 0\<rparr>"


definition low_reader :: reader where
  "low_reader = \<lparr>src = (\<lambda>i. Inr (if i = 0 then 0x01 else 0)), off = 0\<rparr>"

text \<open>An \<^verbatim>\<open>Int63n\<close> that always answers 0, within the contract of \<^verbatim>\<open>math/rand\<close>.\<close>

definition zero_rng :: rng where
  "zero_rng = \<lparr>gen = (\<lambda>k n. if n \<le>s 0 then None else Some 0), calls = 0\<rparr>"


text \<open>Generators used below, and the states they reach: bound 2 over the source of ones,
  before and after a first and a second call for the tick 5; bound 1 over the source of
  \<open>0xFF\<close>, before and after a first call for the tick 0.\<close>

definition gen_two :: MonotonicEntropy where
  "gen_two = Monotonic ones_reader None 2"

definition gen_two_1 :: MonotonicEntropy where
  "gen_two_1 = gen_two\<lparr>Reader := ones_reader\<lparr>off := 10\<rparr>, ms := 5,
     entropy := \<lparr>Hi = 0x0101, Lo = 0x0101010101010101\<rparr>\<rparr>"

definition gen_two_2 :: MonotonicEntropy where
  "gen_two_2 = gen_two_1\<lparr>Reader := ones_reader\<lparr>off := 11\<rparr>, rand := [1, 0, 0, 0, 0, 0, 0, 0],
     entropy := \<lparr>Hi = 0x0101, Lo = 0x0101010101010103\<rparr>\<rparr>"

definition gen_one :: MonotonicEntropy where
  "gen_one = Monotonic ff_reader None 1"

definition gen_one_full :: MonotonicEntropy where
  "gen_one_full = gen_one\<lparr>Reader := ff_reader\<lparr>off := 10\<rparr>, ms := 0,
     entropy := \<lparr>Hi = 0xFFFF, Lo = 0xFFFFFFFFFFFFFFFF\<rparr>\<rparr>"

section \<open>Properties of the counter\<close>

lemma val80_bound: "val80 u < 2 ^ 80"
proof -
  have h: "unat (Hi u) < 2 ^ 16" using unsigned_less [of "Hi u"] by simp
  have l: "unat (Lo u) < 2 ^ 64" using unsigned_less [of "Lo u"] by simp
  from h have "unat (Hi u) + 1 \<le> 2 ^ 16" by simp
  then have "(unat (Hi u) + 1) * 2 ^ 64 \<le> (2 ^ 16) * (2 ^ 64 :: nat)"
    by (rule mult_le_mono1)
  with l show ?thesis by (simp add: val80_def)
qed

lemma Add_cases:
  fixes u :: uint80 and n :: uint64
  defines "h \<equiv> unat (Hi u)" and "l \<equiv> unat (Lo u)" and "k \<equiv> unat n"
  shows "val80 (fst (Add u n)) = (h * 2 ^ 64 + l + k) mod 2 ^ 80 \<and>
         (snd (Add u n) \<longleftrightarrow> 2 ^ 80 \<le> h * 2 ^ 64 + l + k)"
proof -
  have hb: "h < 2 ^ 16" unfolding h_def using unsigned_less [of "Hi u"] by simp
  have lb: "l < 2 ^ 64" unfolding l_def using unsigned_less [of "Lo u"] by simp
  have kb: "k < 2 ^ 64" unfolding k_def using unsigned_less [of n] by simp
  have lo': "unat (Lo u + n) = (l + k) mod 2 ^ 64"
    by (simp add: unat_word_ariths l_def k_def)
  have carry: "(Lo u + n < Lo u) \<longleftrightarrow> 2 ^ 64 \<le> l + k"
  proof (cases "l + k < 2 ^ 64")
    case True
    then show ?thesis using lo' by (simp add: word_less_nat_alt l_def)
  next
    case False
    then have "(l + k) mod 2 ^ 64 = l + k - 2 ^ 64"
      using lb kb by (simp add: mod_if)
    then show ?thesis using lo' False kb by (simp add: word_less_nat_alt l_def)
  qed
  have hi': "unat (Hi u + 1) = (h + 1) mod 2 ^ 16"
    by (simp add: unat_word_ariths h_def)
  show ?thesis
  proof (cases "2 ^ 64 \<le> l + k")
    case False
    then have "h * 2 ^ 64 + l + k < 2 ^ 80" using hb lb kb by simp
    then show ?thesis using False carry lo'
      by (simp add: Add_def Let_def val80_def h_def)
  next
    case True
    then have lmod: "(l + k) mod 2 ^ 64 = l + k - 2 ^ 64"
      using lb kb by (simp add: mod_if)
    show ?thesis
    proof (cases "h + 1 < 2 ^ 16")
      case h1: True
      then have "unat (Hi u + 1) = h + 1" using hi' by simp
      moreover have "h * 2 ^ 64 + l + k < 2 ^ 80" using h1 lb kb by simp
      ultimately show ?thesis using True carry lo' lmod
        by (simp add: Add_def Let_def val80_def word_less_nat_alt h_def)
    next
      case h1: False
      then have heq: "h = 2 ^ 16 - 1" using hb by simp
      then have z: "unat (Hi u + 1) = 0" using hi' by simp
      have "h * 2 ^ 64 + l + k = 2 ^ 80 + (l + k - 2 ^ 64)" using heq True by simp
      moreover have "l + k - 2 ^ 64 < (2 ^ 80 :: nat)" using lb kb by simp
      ultimately have "(h * 2 ^ 64 + l + k) mod 2 ^ 80 = l + k - 2 ^ 64 \<and> 2 ^ 80 \<le> h * 2 ^ 64 + l + k"
        by simp
      then show ?thesis using True carry lo' lmod z heq
        by (simp add: Add_def Let_def val80_def word_less_nat_alt h_def)
    qed
  qed
qed

lemma Add_low_carry_example:
  "Add \<lparr>Hi = 0, Lo = 0xFFFFFFFFFFFFFFFF\<rparr> 1 = (\<lparr>Hi = 1, Lo = 0\<rparr>, False)"
  by (simp add: Add_def)

lemma Add_wrap_example:
  "Add \<lparr>Hi = 0xFFFF, Lo = 0xFFFFFFFFFFFFFFFF\<rparr> 1 = (\<lparr>Hi = 0, Lo = 0\<rparr>, True)"
  by (simp add: Add_def)

text \<open>
  C6. For every counter \<open>u\<close> and every 64-bit \<open>n\<close>, \<^verbatim>\<open>Add\<close> leaves the counter holding
  the sum modulo \<open>2^80\<close>, in its 16-bit high word and 64-bit low word, and returns the
  overflow flag exactly when the sum of the two numbers is at least \<open>2^80\<close>. A carry out of
  the low word alone is therefore not reported.
\<close>

theorem Add_exact_mod_2_80:
  "val80 (fst (Add u n)) = (val80 u + unat n) mod 2 ^ 80 \<and>
   (snd (Add u n) \<longleftrightarrow> 2 ^ 80 \<le> val80 u + unat n)"
  using Add_cases [of u n] by (simp add: val80_def)

section \<open>Bytes, bit by bit\<close>

lemma byte_eqI:
  fixes x y :: byte
  assumes "bit x 0 = bit y 0" "bit x 1 = bit y 1" "bit x 2 = bit y 2" "bit x 3 = bit y 3"
    "bit x 4 = bit y 4" "bit x 5 = bit y 5" "bit x 6 = bit y 6" "bit x 7 = bit y 7"
  shows "x = y"
proof (rule bit_word_eqI)
  fix n assume "n < LENGTH(8)"
  then have "n \<in> {0, 1, 2, 3, 4, 5, 6, 7}" by auto
  with assms show "bit x n = bit y n" by auto
qed

lemma bit_times_2_word:
  "bit (x * 2 :: 'a::len word) n \<longleftrightarrow> 1 \<le> n \<and> n < LENGTH('a) \<and> bit x (n - 1)"
proof -
  have "x * 2 = push_bit 1 x" by simp
  then show ?thesis by (simp only: bit_push_bit_iff) (auto simp: bit_imp_le_length possible_bit_word)
qed

lemma byte_bit_ge8: "8 \<le> n \<Longrightarrow> bit (w::byte) n = False"
  using bit_imp_le_length [of w n] by auto

lemmas bit_blast = bit_simps bit_times_2_word byte_bit_ge8 numeral_2_eq_2 [symmetric]

lemma lt32_and: "(d::byte) < 32 \<longleftrightarrow> d AND 31 = d"
proof
  assume "d < 32"
  then have "d < 2 ^ 5" by simp
  then have "d AND mask 5 = d" by (rule less_mask_eq)
  then show "d AND 31 = d" by (simp add: mask_eq_exp_minus_1)
next
  assume a: "d AND 31 = d"
  have "d AND 31 \<le> 31" by (rule word_and_le1)
  with a show "d < 32" by (simp add: word_less_nat_alt word_le_nat_alt)
qed

lemma lt32: "(d::byte) < 32 \<longleftrightarrow> \<not> bit d 5 \<and> \<not> bit d 6 \<and> \<not> bit d 7"
proof -
  have "d AND 31 = d \<longleftrightarrow> \<not> bit d 5 \<and> \<not> bit d 6 \<and> \<not> bit d 7"
  proof
    assume "d AND 31 = d"
    then have e: "bit d n = bit (d AND 31) n" for n by simp
    show "\<not> bit d 5 \<and> \<not> bit d 6 \<and> \<not> bit d 7"
      using e [of 5] e [of 6] e [of 7] by (simp add: bit_simps)
  next
    assume "\<not> bit d 5 \<and> \<not> bit d 6 \<and> \<not> bit d 7"
    then show "d AND 31 = d" by - (rule byte_eqI, simp_all add: bit_simps)
  qed
  then show ?thesis by (simp add: lt32_and)
qed

lemma lt8_and: "(d::byte) < 8 \<longleftrightarrow> d AND 7 = d"
proof
  assume "d < 8"
  then have "d < 2 ^ 3" by simp
  then have "d AND mask 3 = d" by (rule less_mask_eq)
  then show "d AND 7 = d" by (simp add: mask_eq_exp_minus_1)
next
  assume a: "d AND 7 = d"
  have "d AND 7 \<le> 7" by (rule word_and_le1)
  with a show "d < 8" by (simp add: word_less_nat_alt word_le_nat_alt)
qed

lemma lt8: "(d::byte) < 8 \<longleftrightarrow> \<not> bit d 3 \<and> \<not> bit d 4 \<and> \<not> bit d 5 \<and> \<not> bit d 6 \<and> \<not> bit d 7"
proof -
  have "d AND 7 = d \<longleftrightarrow> \<not> bit d 3 \<and> \<not> bit d 4 \<and> \<not> bit d 5 \<and> \<not> bit d 6 \<and> \<not> bit d 7"
  proof
    assume "d AND 7 = d"
    then have e: "bit d n = bit (d AND 7) n" for n by simp
    show "\<not> bit d 3 \<and> \<not> bit d 4 \<and> \<not> bit d 5 \<and> \<not> bit d 6 \<and> \<not> bit d 7"
      using e [of 3] e [of 4] e [of 5] e [of 6] e [of 7] by (simp add: bit_simps)
  next
    assume "\<not> bit d 3 \<and> \<not> bit d 4 \<and> \<not> bit d 5 \<and> \<not> bit d 6 \<and> \<not> bit d 7"
    then show "d AND 7 = d" by - (rule byte_eqI, simp_all add: bit_simps)
  qed
  then show ?thesis by (simp add: lt8_and)
qed

lemma list_update_Cons_numeral:
  "(x # xs)[numeral v := y] = x # xs[numeral v - 1 := y]"
  by (simp add: numeral_eq_Suc)

lemma upt_0_16: "[0..<16] = [0, 1, 2, 3, 4, 5, 6, 7, 8, 9, 10, 11, 12, 13, 14, 15]"
  by code_simp

lemma upt_0_26:
  "[0..<26] = [0, 1, 2, 3, 4, 5, 6, 7, 8, 9, 10, 11, 12, 13, 14, 15, 16, 17, 18, 19, 20,
     21, 22, 23, 24, 25]"
  by code_simp

lemma list16:
  assumes "length (xs::'a list) = 16"
  obtains a0 a1 a2 a3 a4 a5 a6 a7 a8 a9 a10 a11 a12 a13 a14 a15 where "xs = [a0, a1, a2, a3, a4, a5, a6, a7, a8, a9, a10, a11, a12, a13, a14, a15]"
proof -
  have "xs = map (nth xs) [0..<16]" using map_nth [of xs] assms by simp
  also have "\<dots> = [xs ! 0, xs ! 1, xs ! 2, xs ! 3, xs ! 4, xs ! 5, xs ! 6, xs ! 7, xs ! 8, xs ! 9, xs ! 10, xs ! 11, xs ! 12, xs ! 13, xs ! 14, xs ! 15]"
    by (simp only: upt_0_16 list.map)
  finally show thesis by (rule that)
qed

lemma list26:
  assumes "length (xs::'a list) = 26"
  obtains a0 a1 a2 a3 a4 a5 a6 a7 a8 a9 a10 a11 a12 a13 a14 a15 a16 a17 a18 a19 a20 a21 a22 a23 a24 a25 where "xs = [a0, a1, a2, a3, a4, a5, a6, a7, a8, a9, a10, a11, a12, a13, a14, a15, a16, a17, a18, a19, a20, a21, a22, a23, a24, a25]"
proof -
  have "xs = map (nth xs) [0..<26]" using map_nth [of xs] assms by simp
  also have "\<dots> = [xs ! 0, xs ! 1, xs ! 2, xs ! 3, xs ! 4, xs ! 5, xs ! 6, xs ! 7, xs ! 8, xs ! 9, xs ! 10, xs ! 11, xs ! 12, xs ! 13, xs ! 14, xs ! 15, xs ! 16, xs ! 17, xs ! 18, xs ! 19, xs ! 20, xs ! 21, xs ! 22, xs ! 23, xs ! 24, xs ! 25]"
    by (simp only: upt_0_26 list.map)
  finally show thesis by (rule that)
qed

section \<open>The codec in terms of its five-bit values\<close>

lemma MarshalTextTo_syms:
  assumes "length dst = 26"
  shows "MarshalTextTo uid dst = (None, map (\<lambda>e. Encoding ! unat e) (syms uid))"
proof -
  from assms obtain a0 a1 a2 a3 a4 a5 a6 a7 a8 a9 a10 a11 a12 a13 a14 a15 a16 a17 a18 a19 a20 a21 a22 a23 a24 a25 where "dst = [a0, a1, a2, a3, a4, a5, a6, a7, a8, a9, a10, a11, a12, a13, a14, a15, a16, a17, a18, a19, a20, a21, a22, a23, a24, a25]" by (rule list26)
  then show ?thesis
    by (simp add: MarshalTextTo_def EncodedSize_def syms_def list_update_Cons_numeral)
qed

lemma parse_unsyms:
  assumes "length v = 26" "length uid = 16"
  shows "parse v strict uid =
     (if strict \<and> (\<exists>c\<in>set v. dec ! of_char c = 0xFF) then (Some ErrInvalidCharacters, uid)
      else if (55::nat) < of_char (v ! 0) then (Some ErrOverflow, uid)
      else (None, unsyms (map (\<lambda>c. dec ! of_char c) v)))"
proof -
  from assms(1) obtain a0 a1 a2 a3 a4 a5 a6 a7 a8 a9 a10 a11 a12 a13 a14 a15 a16 a17 a18 a19 a20 a21 a22 a23 a24 a25 where v: "v = [a0, a1, a2, a3, a4, a5, a6, a7, a8, a9, a10, a11, a12, a13, a14, a15, a16, a17, a18, a19, a20, a21, a22, a23, a24, a25]" by (rule list26)
  from assms(2) obtain b0 b1 b2 b3 b4 b5 b6 b7 b8 b9 b10 b11 b12 b13 b14 b15 where u: "uid = [b0, b1, b2, b3, b4, b5, b6, b7, b8, b9, b10, b11, b12, b13, b14, b15]" by (rule list16)
  show ?thesis unfolding v u
    by (simp add: parse_def EncodedSize_def unsyms_def dec_at_def list_update_Cons_numeral)
qed

lemma unsyms_syms:
  assumes "length uid = 16"
  shows "unsyms (syms uid) = uid"
proof -
  from assms obtain a0 a1 a2 a3 a4 a5 a6 a7 a8 a9 a10 a11 a12 a13 a14 a15 where u: "uid = [a0, a1, a2, a3, a4, a5, a6, a7, a8, a9, a10, a11, a12, a13, a14, a15]" by (rule list16)
  show ?thesis unfolding u
    by (simp add: unsyms_def syms_def)
      (intro conjI; (rule byte_eqI; simp add: bit_blast))
qed

lemma syms_unsyms_masked:
  "syms (unsyms [a0 AND 7, a1 AND 31, a2 AND 31, a3 AND 31, a4 AND 31, a5 AND 31, a6 AND 31, a7 AND 31, a8 AND 31, a9 AND 31, a10 AND 31, a11 AND 31, a12 AND 31, a13 AND 31, a14 AND 31, a15 AND 31, a16 AND 31, a17 AND 31, a18 AND 31, a19 AND 31, a20 AND 31, a21 AND 31, a22 AND 31, a23 AND 31, a24 AND 31, a25 AND 31]) = [a0 AND 7, a1 AND 31, a2 AND 31, a3 AND 31, a4 AND 31, a5 AND 31, a6 AND 31, a7 AND 31, a8 AND 31, a9 AND 31, a10 AND 31, a11 AND 31, a12 AND 31, a13 AND 31, a14 AND 31, a15 AND 31, a16 AND 31, a17 AND 31, a18 AND 31, a19 AND 31, a20 AND 31, a21 AND 31, a22 AND 31, a23 AND 31, a24 AND 31, a25 AND 31]"
  by (simp add: unsyms_def syms_def) (intro conjI; (rule byte_eqI; simp add: bit_blast))

lemma syms_unsyms:
  assumes "length d = 26" "\<forall>e\<in>set d. e < 32" "d ! 0 < 8"
  shows "syms (unsyms d) = d"
proof -
  from assms(1) obtain a0 a1 a2 a3 a4 a5 a6 a7 a8 a9 a10 a11 a12 a13 a14 a15 a16 a17 a18 a19 a20 a21 a22 a23 a24 a25 where d: "d = [a0, a1, a2, a3, a4, a5, a6, a7, a8, a9, a10, a11, a12, a13, a14, a15, a16, a17, a18, a19, a20, a21, a22, a23, a24, a25]" by (rule list26)
  have m: "a0 AND 7 = a0 \<and> a1 AND 31 = a1 \<and> a2 AND 31 = a2 \<and> a3 AND 31 = a3 \<and> a4 AND 31 = a4 \<and> a5 AND 31 = a5 \<and> a6 AND 31 = a6 \<and> a7 AND 31 = a7 \<and> a8 AND 31 = a8 \<and> a9 AND 31 = a9 \<and> a10 AND 31 = a10 \<and> a11 AND 31 = a11 \<and> a12 AND 31 = a12 \<and> a13 AND 31 = a13 \<and> a14 AND 31 = a14 \<and> a15 AND 31 = a15 \<and> a16 AND 31 = a16 \<and> a17 AND 31 = a17 \<and> a18 AND 31 = a18 \<and> a19 AND 31 = a19 \<and> a20 AND 31 = a20 \<and> a21 AND 31 = a21 \<and> a22 AND 31 = a22 \<and> a23 AND 31 = a23 \<and> a24 AND 31 = a24 \<and> a25 AND 31 = a25"
    using assms(2,3) unfolding d by (simp add: lt32_and lt8_and)
  show ?thesis unfolding d using syms_unsyms_masked [of a0 a1 a2 a3 a4 a5 a6 a7 a8 a9 a10 a11 a12 a13 a14 a15 a16 a17 a18 a19 a20 a21 a22 a23 a24 a25] m by simp
qed

lemma dec_Encoding_upt:
  "list_all (\<lambda>n. dec ! of_char (Encoding ! n) = (of_nat n :: byte)) [0..<32]"
  by code_simp

lemma dec_Encoding:
  assumes "(e::byte) < 32"
  shows "dec ! of_char (Encoding ! unat e) = e"
proof -
  from assms have "unat e < 32" by (simp add: word_less_nat_alt)
  with dec_Encoding_upt have "dec ! of_char (Encoding ! unat e) = (of_nat (unat e) :: byte)"
    unfolding list_all_iff by simp
  then show ?thesis by simp
qed

lemma Encoding_digits_upt:
  "list_all (\<lambda>n. Encoding ! n \<in> set ''01234567'' \<and> (of_char (Encoding ! n) :: nat) \<le> 55) [0..<8]"
  by code_simp

lemma Encoding_digits:
  assumes "(e::byte) < 8"
  shows "Encoding ! unat e \<in> set ''01234567'' \<and> (of_char (Encoding ! unat e) :: nat) \<le> 55"
proof -
  from assms have "unat e < 8" by (simp add: word_less_nat_alt)
  with Encoding_digits_upt show ?thesis unfolding list_all_iff by simp
qed

lemma Encoding_nth_mem:
  assumes "(e::byte) < 32"
  shows "Encoding ! unat e \<in> set Encoding"
proof -
  from assms have "unat e < length Encoding" by (simp add: word_less_nat_alt Encoding_def)
  then show ?thesis by (rule nth_mem)
qed

lemma length_syms: "length (syms uid) = 26"
  by (simp add: syms_def)

lemma syms_lt32: "e \<in> set (syms uid) \<Longrightarrow> e < 32"
  by (auto simp: syms_def lt32 bit_blast)

lemma syms_0_lt8: "syms uid ! 0 < 8"
  by (simp add: syms_def lt8 bit_blast)

lemma String_syms: "String uid = map (\<lambda>e. Encoding ! unat e) (syms uid)"
  by (simp add: String_def EncodedSize_def MarshalTextTo_syms)

lemma dec_String: "map (\<lambda>c. dec ! of_char c) (String uid) = syms uid"
  unfolding String_syms by (simp add: map_idI dec_Encoding syms_lt32 comp_def)

lemma parse_String:
  assumes "length uid = 16"
  shows "parse (String uid) strict Zero = (None, uid)"
proof -
  have len: "length (String uid) = 26" by (simp add: String_syms length_syms)
  have valid: "\<not> (\<exists>c\<in>set (String uid). dec ! of_char c = 0xFF)"
  proof
    assume "\<exists>c\<in>set (String uid). dec ! of_char c = 0xFF"
    then have "0xFF \<in> set (map (\<lambda>c. dec ! of_char c) (String uid))" by force
    then have "(0xFF::byte) < 32" unfolding dec_String by (rule syms_lt32)
    then show False by simp
  qed
  have "String uid ! 0 = Encoding ! unat (syms uid ! 0)"
    by (simp add: String_syms length_syms)
  then have first: "\<not> (55::nat) < of_char (String uid ! 0)"
    using Encoding_digits [OF syms_0_lt8, of uid] by simp
  show ?thesis
    using valid first
    by (simp add: parse_unsyms [OF len] Zero_def dec_String unsyms_syms [OF assms])
qed

lemma first_digit:
  assumes "c \<in> set ''01234567''"
  shows "dec ! of_char c < 8 \<and> (of_char c :: nat) \<le> 55"
  using assms by (auto simp: dec_def)

lemma valid_char_list:
  "list_all (\<lambda>c. dec ! of_char c < 32 \<and> Encoding ! unat (dec ! of_char c) = to_upper c)
     (Encoding @ ''abcdefghjkmnpqrstvwxyz'')"
  by code_simp

lemma to_upper_lower_list:
  "list_all (\<lambda>c. to_upper c \<in> set Encoding \<longrightarrow> c \<in> set (Encoding @ ''abcdefghjkmnpqrstvwxyz''))
     lower_letters"
  by code_simp

lemma to_upper_alphabet:
  assumes "to_upper c \<in> set Encoding"
  shows "c \<in> set (Encoding @ ''abcdefghjkmnpqrstvwxyz'')"
proof (cases "c \<in> set lower_letters")
  case True
  with assms to_upper_lower_list show ?thesis unfolding list_all_iff by blast
next
  case False
  have "length lower_letters = length upper_letters"
    by (simp add: lower_letters_def upper_letters_def)
  then have "map_of (zip lower_letters upper_letters) c = None"
    using False by (simp add: map_of_zip_is_None)
  then have "to_upper c = c" by (simp only: to_upper_def option.case)
  with assms show ?thesis by simp
qed

lemma valid_char:
  assumes "to_upper c \<in> set Encoding"
  shows "dec ! of_char c < 32 \<and> Encoding ! unat (dec ! of_char c) = to_upper c"
  using valid_char_list to_upper_alphabet [OF assms] unfolding list_all_iff by blast

lemma parse_alphabet:
  assumes len: "length s = 26"
    and alph: "\<forall>c\<in>set s. to_upper c \<in> set Encoding"
    and first: "s ! 0 \<in> set ''01234567''"
  shows "fst (parse s strict Zero) = None \<and> String (snd (parse s strict Zero)) = map to_upper s"
proof -
  let ?d = "map (\<lambda>c. dec ! of_char c) s"
  have lt: "\<forall>e\<in>set ?d. e < 32" using alph valid_char by auto
  have valid: "\<not> (\<exists>c\<in>set s. dec ! of_char c = 0xFF)"
  proof
    assume "\<exists>c\<in>set s. dec ! of_char c = 0xFF"
    then obtain c where "c \<in> set s" "dec ! of_char c = 0xFF" by blast
    with alph valid_char [of c] show False by auto
  qed
  have f: "\<not> (55::nat) < of_char (s ! 0)" "?d ! 0 < 8"
    using first_digit [OF first] len by simp_all
  have p: "parse s strict Zero = (None, unsyms ?d)"
    using valid f(1) by (simp add: parse_unsyms [OF len] Zero_def)
  have "String (unsyms ?d) = map (\<lambda>e. Encoding ! unat e) ?d"
    using syms_unsyms [of ?d] len lt f(2) by (simp add: String_syms)
  also have "\<dots> = map to_upper s" using alph valid_char by (simp add: comp_def)
  finally show ?thesis using p by simp
qed



section \<open>Byte order and numeric order\<close>

lemma be_val_less: "be_val xs < 256 ^ length xs"
proof (induction xs)
  case Nil
  show ?case by simp
next
  case (Cons x xs)
  have "unat x < 256" using unsigned_less [of x] by simp
  then have "unat x + 1 \<le> 256" by simp
  then have m: "(unat x + 1) * 256 ^ length xs \<le> 256 * 256 ^ length xs"
    by (rule mult_le_mono1)
  have "be_val (x # xs) < unat x * 256 ^ length xs + 256 ^ length xs"
    using Cons by simp
  also have "\<dots> = (unat x + 1) * 256 ^ length xs" by simp
  also note m
  finally show ?case by simp
qed

lemma be_val_append: "be_val (xs @ ys) = be_val xs * 256 ^ length ys + be_val ys"
  by (induction xs) (simp_all add: power_add algebra_simps)

lemma bytes_Compare_less:
  assumes "length xs = length ys" "be_val xs < be_val ys"
  shows "bytes_Compare (xs @ r1) (ys @ r2) = - 1"
  using assms
proof (induction xs ys rule: list_induct2)
  case Nil
  then show ?case by simp
next
  case (Cons x xs y ys)
  show ?case
  proof (cases "x < y")
    case True
    then show ?thesis by simp
  next
    case False
    have "\<not> y < x"
    proof
      assume "y < x"
      then have "unat y + 1 \<le> unat x" by (simp add: word_less_nat_alt)
      then have "(unat y + 1) * 256 ^ length xs \<le> unat x * 256 ^ length xs"
        by (rule mult_le_mono1)
      moreover have "be_val ys < 256 ^ length xs"
        using be_val_less [of ys] Cons.hyps by simp
      ultimately show False using Cons.prems Cons.hyps by simp
    qed
    with False have "x = y" by simp
    with Cons show ?thesis by simp
  qed
qed

lemma be_val_digits: "be_val (digits n m) = n mod 256 ^ m"
proof (induction m)
  case 0
  show ?case by (simp add: digits_def)
next
  case (Suc m)
  have d: "digits n (Suc m) = of_nat (n div 256 ^ m) # digits n m"
    by (simp add: digits_def)
  have l: "length (digits n m) = m" by (simp add: digits_def)
  have "unat (of_nat (n div 256 ^ m) :: byte) = n div 256 ^ m mod 256"
    by (simp add: unat_of_nat)
  then have "be_val (digits n (Suc m)) = (n div 256 ^ m mod 256) * 256 ^ m + n mod 256 ^ m"
    using Suc d l by simp
  also have "\<dots> = n mod 256 ^ Suc m"
    using mod_mult2_eq [of n "256 ^ m" 256] by (simp add: mult.commute)
  finally show ?case .
qed

lemma ucast_drop_bit_digit:
  "(ucast (drop_bit (8 * k) (v :: 'a::len word)) :: byte) = of_nat (unat v div 256 ^ k)"
proof -
  have p: "(256::nat) ^ k = 2 ^ (8 * k)"
    using power_mult [of "2::nat" 8 k] by simp
  have "(ucast (drop_bit (8 * k) v) :: byte) = of_nat (unat (drop_bit (8 * k) v))"
    by (rule of_nat_unat [symmetric])
  also have "unat (drop_bit (8 * k) v) = unat v div 256 ^ k"
    unfolding p unat_drop_bit_eq by (rule drop_bit_eq_div)
  finally show ?thesis .
qed

lemma be_val_PutUint64: "be_val (BigEndian_PutUint64 v) = unat v"
proof -
  have "BigEndian_PutUint64 v = digits (unat v) 8"
    using ucast_drop_bit_digit [of 7 v] ucast_drop_bit_digit [of 6 v] ucast_drop_bit_digit [of 5 v]
      ucast_drop_bit_digit [of 4 v] ucast_drop_bit_digit [of 3 v] ucast_drop_bit_digit [of 2 v]
      ucast_drop_bit_digit [of 1 v] ucast_drop_bit_digit [of 0 v]
    by (simp add: BigEndian_PutUint64_def digits_def upt_rec)
  moreover have "unat v < 256 ^ 8" using unsigned_less [of v] by simp
  ultimately show ?thesis by (simp add: be_val_digits)
qed

lemma be_val_PutUint16: "be_val (BigEndian_PutUint16 v) = unat v"
proof -
  have "BigEndian_PutUint16 v = digits (unat v) 2"
    using ucast_drop_bit_digit [of 1 v] ucast_drop_bit_digit [of 0 v]
    by (simp add: BigEndian_PutUint16_def digits_def upt_rec)
  moreover have "unat v < 256 ^ 2" using unsigned_less [of v] by simp
  ultimately show ?thesis by (simp add: be_val_digits)
qed

lemma maxTime_value: "maxTime = 0xFFFFFFFFFFFF"
  by (simp add: maxTime_def Time_def)

lemma SetTime_Zero:
  assumes "t \<le> maxTime"
  shows "SetTime Zero t = (None, digits (unat t) 6 @ replicate 10 0)"
proof -
  have "[ucast (drop_bit 40 t), ucast (drop_bit 32 t), ucast (drop_bit 24 t),
         ucast (drop_bit 16 t), ucast (drop_bit 8 t), ucast t] = digits (unat t) 6"
    using ucast_drop_bit_digit [of 5 t] ucast_drop_bit_digit [of 4 t] ucast_drop_bit_digit [of 3 t]
      ucast_drop_bit_digit [of 2 t] ucast_drop_bit_digit [of 1 t] ucast_drop_bit_digit [of 0 t]
    by (simp add: digits_def upt_rec)
  moreover have "SetTime Zero t =
      (None, [ucast (drop_bit 40 t), ucast (drop_bit 32 t), ucast (drop_bit 24 t),
         ucast (drop_bit 16 t), ucast (drop_bit 8 t), ucast t] @ replicate 10 0)"
    using assms by (simp add: SetTime_def Zero_def eval_nat_numeral)
  ultimately show ?thesis by simp
qed

lemma length_digits: "length (digits n m) = m"
  by (simp add: digits_def)

lemma New_time_prefix:
  assumes "t \<le> maxTime" "New t e = Some (Returns ((uid, err), e'))"
  shows "\<exists>r. uid = digits (unat t) 6 @ r"
proof (cases e)
  case NoEntropy
  with assms show ?thesis by (auto simp: New_def SetTime_Zero)
next
  case (Mono m)
  with assms show ?thesis
    by (auto simp: New_def SetTime_Zero length_digits split: option.splits outcome.splits)
next
  case (Plain r)
  with assms show ?thesis
    by (auto simp: New_def SetTime_Zero length_digits split: prod.splits)
qed


text \<open>Evaluation on numerals.\<close>

lemma read_bytes_numeral:
  "read_bytes s i (numeral n) =
     (case s i of
        Inl e \<Rightarrow> ([], Some e)
      | Inr b \<Rightarrow> (let (bs, e) = read_bytes s (Suc i) (pred_numeral n) in (b # bs, e)))"
  by (simp add: numeral_eq_Suc)

lemma replicate_numeral: "replicate (numeral n) x = x # replicate (pred_numeral n) x"
  by (simp add: numeral_eq_Suc)

lemmas eval_lists = read_bytes_numeral replicate_numeral list_update_Cons_numeral

section \<open>The random increment\<close>

lemma uint_of_nonneg_sint:
  fixes w :: "'a::len word"
  assumes "0 \<le> sint w"
  shows "uint w = sint w"
proof -
  have "sint w < 2 ^ (LENGTH('a) - 1)" by (rule sint_lt)
  also have "(2::int) ^ (LENGTH('a) - 1) \<le> 2 ^ LENGTH('a)"
    by (rule power_increasing) simp_all
  finally have "sint w < 2 ^ LENGTH('a)" .
  with assms have "take_bit LENGTH('a) (sint w) = sint w"
    by (simp add: take_bit_int_eq_self)
  then show ?thesis by (simp add: uint_sint)
qed

lemma signed_range_unat:
  fixes v n :: "'a::len word"
  assumes "0 \<le>s v" "v <s n"
  shows "unat v < unat n"
proof -
  from assms(1) have "sint (0 :: 'a word) \<le> sint v" by (simp only: word_sle_eq)
  then have v: "0 \<le> sint v" by (simp only: sint_0)
  from assms(2) have lt: "sint v < sint n" by (simp only: word_sless_alt)
  with v have n: "0 \<le> sint n" by linarith
  have "uint v = sint v" using v by (rule uint_of_nonneg_sint)
  moreover have "uint n = sint n" using n by (rule uint_of_nonneg_sint)
  ultimately have "uint v < uint n" using lt by linarith
  then have "v < n" by (simp only: word_less_def)
  then show ?thesis by (simp only: word_less_nat_alt)
qed

text \<open>What the sampling loop can return: one more than a candidate that is neither zero nor
  at or above the bound. It touches only the reader and the scratch bytes.\<close>

lemma random_loop_result:
  assumes "random_loop byteLen msbitLen m i = Some y"
  shows "(case y of
            (Inl err, m') \<Rightarrow> True
          | (Inr d, m') \<Rightarrow> \<exists>j. d = 1 + j \<and> j \<noteq> 0 \<and> j < inc m) \<and>
         inc (snd y) = inc m \<and> entropy (snd y) = entropy m \<and> ms (snd y) = ms m \<and>
         rng (snd y) = rng m"
proof (rule random_loop.raw_induct [where P = "\<lambda>byteLen msbitLen m i y.
    (case y of
       (Inl err, m') \<Rightarrow> True
     | (Inr d, m') \<Rightarrow> \<exists>j. d = 1 + j \<and> j \<noteq> 0 \<and> j < inc m) \<and>
    inc (snd y) = inc m \<and> entropy (snd y) = entropy m \<and> ms (snd y) = ms m \<and>
    rng (snd y) = rng m", OF _ assms], goal_cases)
  case (1 loop byteLen msbitLen m i y)
  show ?case
  proof (cases "i = 0 \<or> inc m \<le> i")
    case False
    with 1(2) have "y = (Inr (1 + i), m)" by auto
    with False show ?thesis by auto
  next
    case True
    obtain n e buf r where rf: "ReadFull (Reader m) (take byteLen (rand m)) = ((n, e), buf, r)"
      by (metis prod.exhaust)
    show ?thesis
    proof (cases e)
      case (Some err)
      with True rf 1(2) show ?thesis by auto
    next
      case None
      define rnd where "rnd = (buf @ drop byteLen (rand m))
        [0 := (buf @ drop byteLen (rand m)) ! 0 AND word_of_int (push_bit msbitLen 1 - 1)]"
      from True rf None 1(2)
      have "loop byteLen msbitLen (m\<lparr>Reader := r, rand := rnd\<rparr>) (candidate byteLen rnd i) = Some y"
        by (simp add: rnd_def Let_def)
      from 1(1) [OF this] show ?thesis by (auto split: prod.splits sum.splits)
    qed
  qed
qed

lemma unat_Suc_word:
  fixes j b :: "'a::len word"
  assumes "j < b"
  shows "unat (1 + j) = Suc (unat j)"
proof -
  from assms have "unat j < unat b" by (simp add: word_less_nat_alt)
  moreover have "unat b < 2 ^ LENGTH('a)" by (rule unsigned_less)
  ultimately have "Suc (unat j) < 2 ^ LENGTH('a)" by linarith
  then show ?thesis by (simp add: unat_word_ariths)
qed

text \<open>The increment \<^verbatim>\<open>random\<close> returns lies between 1 and the bound, both included (and
  is 1 when the bound is 0 or 1), provided an \<^verbatim>\<open>Int63n\<close> in use keeps the contract of
  \<^verbatim>\<open>math/rand\<close>. The byte-sampling path never returns 1.\<close>

lemma random_result:
  assumes r: "random m = Some (Returns (Inr d, m'))"
    and c: "\<forall>g. rng m = Some g \<longrightarrow> math_rand g"
  shows "1 \<le> unat d \<and> unat d \<le> max 1 (unat (inc m)) \<and>
         (rng m = None \<and> 1 < inc m \<longrightarrow> 2 \<le> unat d) \<and>
         inc m' = inc m \<and> entropy m' = entropy m \<and> ms m' = ms m \<and>
         map_option gen (rng m') = map_option gen (rng m)"
proof (cases "inc m \<le> 1")
  case True
  with r show ?thesis by (auto simp: random_def)
next
  case False
  then have big: "1 < inc m" by simp
  show ?thesis
  proof (cases "rng m")
    case (Some g)
    with c have mr: "math_rand g" by simp
    from r False Some obtain v g' where i: "Int63n g (inc m) = Returns (v, g')"
      and d: "d = 1 + v" and m': "m' = m\<lparr>rng := Some g'\<rparr>"
      by (auto simp: random_def split: outcome.splits)
    from i have gv: "gen g (calls g) (inc m) = Some v" and g': "g' = g\<lparr>calls := Suc (calls g)\<rparr>"
      by (auto simp: Int63n_def split: option.splits)
    from mr gv have "0 \<le>s v \<and> v <s inc m"
      unfolding math_rand_def by (metis option.distinct(1) option.inject)
    then have lt: "unat v < unat (inc m)" by (simp add: signed_range_unat)
    then have "v < inc m" by (simp add: word_less_nat_alt)
    then have "unat d = Suc (unat v)" unfolding d by (rule unat_Suc_word)
    with lt Some m' g' show ?thesis by simp
  next
    case None
    from r False None obtain bl ml where
      l: "random_loop bl ml m 0 = Some (Inr d, m')"
      by (auto simp: random_def Let_def)
    from random_loop_result [OF l] obtain j where j: "d = 1 + j" "j \<noteq> 0" "j < inc m"
      and same: "inc m' = inc m" "entropy m' = entropy m" "ms m' = ms m" "rng m' = rng m"
      by auto
    from j(3) have "unat d = Suc (unat j)" unfolding j(1) by (rule unat_Suc_word)
    moreover from j(2) have "0 < unat j" by (simp add: unat_gt_0)
    moreover from j(3) have "unat j < unat (inc m)" by (simp add: word_less_nat_alt)
    ultimately show ?thesis using same by simp
  qed
qed

lemma random_error_state:
  assumes "random m = Some (Returns (Inl err, m'))"
  shows "entropy m' = entropy m \<and> ms m' = ms m \<and> inc m' = inc m"
proof -
  from assms obtain bl ml where "random_loop bl ml m 0 = Some (Inl err, m')"
    by (auto simp: random_def Let_def split: if_splits option.splits outcome.splits)
  from random_loop_result [OF this] show ?thesis by simp
qed
lemma random_state:
  assumes "random m = Some (Returns (x, m'))"
  shows "inc m' = inc m \<and> entropy m' = entropy m \<and> ms m' = ms m \<and>
         map_option gen (rng m') = map_option gen (rng m)"
proof (cases "inc m \<le> 1")
  case True
  with assms show ?thesis by (auto simp: random_def)
next
  case False
  show ?thesis
  proof (cases "rng m")
    case (Some g)
    with assms False show ?thesis
      by (auto simp: random_def Int63n_def split: outcome.splits option.splits)
  next
    case None
    with assms False obtain bl ml where "random_loop bl ml m 0 = Some (x, m')"
      by (auto simp: random_def Let_def)
    from random_loop_result [OF this] None show ?thesis by simp
  qed
qed

section \<open>The entropy bytes as a number\<close>

lemma IsZero80_val80: "IsZero80 u \<longleftrightarrow> val80 u = 0"
  by (auto simp: IsZero80_def val80_def unat_eq_0)

lemma PutUint16_Uint16: "BigEndian_PutUint16 (BigEndian_Uint16 b) = [b ! 0, b ! 1]"
  by (simp add: BigEndian_PutUint16_def BigEndian_Uint16_def)
    (intro conjI; (rule byte_eqI; simp add: bit_blast))

lemma PutUint64_Uint64:
  "BigEndian_PutUint64 (BigEndian_Uint64 b) = [b ! 0, b ! 1, b ! 2, b ! 3, b ! 4, b ! 5, b ! 6, b ! 7]"
  by (simp add: BigEndian_PutUint64_def BigEndian_Uint64_def)
    (intro conjI; (rule byte_eqI; simp add: bit_blast))

lemma upt_0_2: "[0..<2] = [0, 1]"
  by code_simp

lemma upt_0_8: "[0..<8] = [0, 1, 2, 3, 4, 5, 6, 7]"
  by code_simp

lemma list2: "length (xs::'a list) = 2 \<Longrightarrow> xs = [xs ! 0, xs ! 1]"
  using map_nth [of xs] by (simp add: upt_0_2)

lemma list8:
  "length (xs::'a list) = 8 \<Longrightarrow> xs = [xs ! 0, xs ! 1, xs ! 2, xs ! 3, xs ! 4, xs ! 5, xs ! 6, xs ! 7]"
  using map_nth [of xs] by (simp add: upt_0_8)

lemma be_val_Uint16:
  assumes "length b = 2"
  shows "unat (BigEndian_Uint16 b) = be_val b"
proof -
  have "be_val b = be_val (BigEndian_PutUint16 (BigEndian_Uint16 b))"
    using list2 [OF assms] by (simp add: PutUint16_Uint16)
  then show ?thesis by (simp add: be_val_PutUint16)
qed

lemma be_val_Uint64:
  assumes "length b = 8"
  shows "unat (BigEndian_Uint64 b) = be_val b"
proof -
  have "be_val b = be_val (BigEndian_PutUint64 (BigEndian_Uint64 b))"
    using list8 [OF assms] by (simp add: PutUint64_Uint64)
  then show ?thesis by (simp add: be_val_PutUint64)
qed

lemma Uint64_take: "BigEndian_Uint64 (take 8 b) = BigEndian_Uint64 b"
  by (simp add: BigEndian_Uint64_def)

lemma be_val_entropy_bytes:
  "be_val (BigEndian_PutUint16 (Hi u) @ BigEndian_PutUint64 (Lo u)) = val80 u"
proof -
  have "length (BigEndian_PutUint64 (Lo u)) = 8" by (simp add: BigEndian_PutUint64_def)
  then show ?thesis
    by (simp add: be_val_append be_val_PutUint16 be_val_PutUint64 val80_def)
qed

lemma AppendTo_value:
  assumes "AppendTo u p = Returns p'"
  shows "10 \<le> length p \<and> length p' = length p \<and> be_val (take 10 p') = val80 u \<and>
         drop 10 p' = drop 10 p"
proof -
  from assms have l: "10 \<le> length p"
    and p': "p' = (BigEndian_PutUint16 (Hi u) @ BigEndian_PutUint64 (Lo u)) @ drop 10 p"
    by (auto simp: AppendTo_def split: if_splits)
  have "length (BigEndian_PutUint16 (Hi u) @ BigEndian_PutUint64 (Lo u)) = 10"
    by (simp add: BigEndian_PutUint16_def BigEndian_PutUint64_def)
  with l show ?thesis unfolding p' by (simp add: be_val_entropy_bytes)
qed

lemma SetBytes_value:
  assumes "SetBytes u p = Returns u'"
  shows "10 \<le> length p \<and> val80 u' = be_val (take 10 p)"
proof -
  from assms have l: "10 \<le> length p"
    and u': "u' = u\<lparr>Hi := BigEndian_Uint16 (take 2 p), Lo := BigEndian_Uint64 (drop 2 p)\<rparr>"
    by (auto simp: SetBytes_def split: if_splits)
  have "take 10 p = take 2 p @ take 8 (drop 2 p)"
    using take_add [of 2 8 p] by simp
  moreover have "length (take 2 p) = 2" "length (take 8 (drop 2 p)) = 8" using l by simp_all
  ultimately have "be_val (take 10 p) =
      unat (BigEndian_Uint16 (take 2 p)) * 256 ^ 8 + unat (BigEndian_Uint64 (take 8 (drop 2 p)))"
    by (simp add: be_val_append be_val_Uint16 be_val_Uint64)
  then show ?thesis using l unfolding u' by (simp add: val80_def Uint64_take)
qed

lemma read_bytes_length: "read_bytes s i k = (bs, None) \<Longrightarrow> length bs = k"
  by (induction k arbitrary: i bs) (auto split: sum.splits prod.splits)

lemma ReadFull_length:
  assumes "ReadFull r p = ((n, None), p', r')"
  shows "length p' = length p"
  using assms read_bytes_length [of "src r" "off r" "length p"]
  by (auto simp: ReadFull_def Let_def split: prod.splits option.splits if_splits)

section \<open>One call of the generator\<close>

text \<open>A call for the recorded tick with non-zero stored entropy takes the increment path:
  it draws an increment, adds it in place and writes the counter to the buffer, whatever
  the error.\<close>

lemma MonotonicRead_same_tick:
  assumes "\<not> IsZero80 (entropy m)" "ms m = t" "random m = Some (Returns (Inr d, m0))"
  shows "MonotonicRead m t p =
     (case AppendTo (fst (Add (entropy m) d)) p of
        Panics \<Rightarrow> Some Panics
      | Returns p' \<Rightarrow>
          Some (Returns (if snd (Add (entropy m) d) then Some ErrMonotonicOverflow else None, p',
            m0\<lparr>entropy := fst (Add (entropy m) d)\<rparr>)))"
proof -
  from random_state [OF assms(3)] have "entropy m0 = entropy m" by simp
  with assms show ?thesis
    by (simp add: MonotonicRead_def increment_def split_beta Let_def split: outcome.splits)
qed

lemma MonotonicRead_same_tick_inv:
  assumes nz: "\<not> IsZero80 (entropy m)" and tick: "ms m = t"
    and call: "MonotonicRead m t p = Some (Returns (None, p', m'))"
  shows "\<exists>d m0. random m = Some (Returns (Inr d, m0)) \<and> \<not> snd (Add (entropy m) d) \<and>
           entropy m' = fst (Add (entropy m) d) \<and> AppendTo (entropy m') p = Returns p' \<and>
           ms m' = t \<and> inc m' = inc m \<and> map_option gen (rng m') = map_option gen (rng m)"
proof -
  from call nz tick obtain x m0 where r: "random m = Some (Returns (x, m0))"
    by (auto simp: MonotonicRead_def increment_def split: option.splits outcome.splits)
  from call nz tick r obtain d where x: "x = Inr d"
    by (cases x) (auto simp: MonotonicRead_def increment_def split: outcome.splits)
  note st = random_state [OF r]
  from call MonotonicRead_same_tick [OF nz tick r [unfolded x], of p]
  have "\<not> snd (Add (entropy m) d) \<and> m' = m0\<lparr>entropy := fst (Add (entropy m) d)\<rparr> \<and>
        AppendTo (fst (Add (entropy m) d)) p = Returns p'"
    by (auto split: outcome.splits if_splits)
  with r x st tick show ?thesis by auto
qed

text \<open>After any successful call the recorded tick is the tick of the call and the first ten
  bytes of the buffer are the stored entropy.\<close>

lemma MonotonicRead_success:
  assumes "MonotonicRead m t p = Some (Returns (None, p', m'))"
  shows "ms m' = t \<and> 10 \<le> length p' \<and> be_val (take 10 p') = val80 (entropy m') \<and>
         inc m' = inc m \<and> map_option gen (rng m') = map_option gen (rng m)"
proof (cases "\<not> IsZero80 (entropy m) \<and> ms m = t")
  case True
  then have nz: "\<not> IsZero80 (entropy m)" and tick: "ms m = t" by simp_all
  from MonotonicRead_same_tick_inv [OF nz tick assms] obtain d m0 where
    a: "AppendTo (entropy m') p = Returns p'" and
    s: "ms m' = t" "inc m' = inc m" "map_option gen (rng m') = map_option gen (rng m)"
    by blast
  from AppendTo_value [OF a] s show ?thesis by simp
next
  case False
  obtain n e q r where rf: "ReadFull (Reader m) p = ((n, e), q, r)"
    by (metis prod.exhaust)
  from assms False rf have e: "e = None"
    by (cases e) (auto simp: MonotonicRead_def)
  from assms False rf e obtain u where sb: "SetBytes (entropy m) q = Returns u"
    and p': "p' = q" and m': "m' = m\<lparr>Reader := r, ms := t, entropy := u\<rparr>"
    by (auto simp: MonotonicRead_def split: outcome.splits)
  from SetBytes_value [OF sb] p' m' show ?thesis by simp
qed
lemma math_rand_zero_rng: "math_rand zero_rng"
proof -
  have "0 <s n" if "\<not> n \<le>s 0" for n :: "64 word"
    using that by (simp add: word_sle_eq word_sless_alt)
  then show ?thesis by (simp add: math_rand_def zero_rng_def)
qed

lemma word_cmp_facts:
  "\<not> (2::64 word) \<le> 1" "\<not> (2::64 word) \<le>s 0"
  "\<not> (0xFFFFFFFF::64 word) \<le> 1" "\<not> (0xFFFFFFFF::64 word) \<le>s 0"
  by (simp_all add: word_le_nat_alt word_sle_eq)

lemmas eval_generator = word_cmp_facts
  MonotonicRead_def increment_def random_def Monotonic_def Len64_def bit_length.simps
  ReadFull_def AppendTo_def SetBytes_def Add_def IsZero80_def candidate_def Int63n_def
  BigEndian_Uint16_def BigEndian_Uint64_def BigEndian_PutUint16_def BigEndian_PutUint64_def
  LittleEndian_Uint16_def LittleEndian_Uint32_def LittleEndian_Uint64_def eval_lists

lemma gen_two_first:
  "MonotonicRead gen_two 5 (replicate 10 0) = Some (Returns (None, replicate 10 1, gen_two_1))"
  by (simp add: gen_two_def gen_two_1_def ones_reader_def eval_generator)

lemma gen_two_random:
  "random gen_two_1 = Some (Returns (Inr 2,
     gen_two_1\<lparr>Reader := ones_reader\<lparr>off := 11\<rparr>, rand := [1, 0, 0, 0, 0, 0, 0, 0]\<rparr>))"
  by (simp add: gen_two_def gen_two_1_def ones_reader_def eval_generator random_loop.simps)

lemma gen_two_second:
  "MonotonicRead gen_two_1 5 (replicate 10 0) =
     Some (Returns (None, [1, 1, 1, 1, 1, 1, 1, 1, 1, 3], gen_two_2))"
  by (simp add: gen_two_def gen_two_1_def gen_two_2_def ones_reader_def eval_generator
      random_loop.simps)

lemma gen_one_first:
  "MonotonicRead gen_one 0 (replicate 10 0) = Some (Returns (None, replicate 10 0xFF, gen_one_full))"
  by (simp add: gen_one_def gen_one_full_def ff_reader_def eval_generator)

lemma gen_one_second:
  "MonotonicRead gen_one_full 0 (replicate 10 0xAA) =
     Some (Returns (Some ErrMonotonicOverflow, replicate 10 0,
       gen_one_full\<lparr>entropy := \<lparr>Hi = 0, Lo = 0\<rparr>\<rparr>))"
  by (simp add: gen_one_def gen_one_full_def ff_reader_def eval_generator)

lemma fast_path_one:
  "random (Monotonic ones_reader (Some zero_rng) 2) =
     Some (Returns (Inr 1, (Monotonic ones_reader (Some zero_rng) 2)\<lparr>rng := Some (zero_rng\<lparr>calls := 1\<rparr>)\<rparr>))"
  by (simp add: zero_rng_def eval_generator)

section \<open>The sampling loop at the bound 256\<close>

text \<open>With the bound 256 the loop reads two bytes and masks the first to its lowest bit; the
  conversion is little-endian, so the masked byte is the low one. A candidate below 256
  that is not 0 can then only be 1.\<close>

lemma candidate_256:
  fixes x b1 :: byte
  defines "c \<equiv> (ucast (ucast (x AND 1) OR push_bit 8 (ucast b1) :: 16 word) :: 64 word)"
  assumes "c \<noteq> 0" "c < 256"
  shows "c = 1"
proof -
  from assms(3) have "c < 2 ^ 8" by simp
  then have m: "c AND mask 8 = c" by (rule less_mask_eq)
  have "c AND mask 8 = ucast (x AND 1)"
    unfolding c_def by (rule bit_word_eqI) (auto simp: bit_simps)
  with m have c: "c = ucast (x AND 1)" by simp
  have "x AND 1 = 0 \<or> x AND 1 = 1"
  proof (cases "bit x 0")
    case True
    then have "x AND 1 = 1" by - (rule byte_eqI, simp_all add: bit_simps)
    then show ?thesis ..
  next
    case False
    then have "x AND 1 = 0" by - (rule byte_eqI, simp_all add: bit_simps)
    then show ?thesis ..
  qed
  with c assms(2) show ?thesis by auto
qed

lemma random_loop_256:
  assumes "random_loop byteLen msbitLen m i = Some y"
  shows "byteLen = 2 \<longrightarrow> msbitLen = 1 \<longrightarrow> inc m = 256 \<longrightarrow> length (rand m) = 8 \<longrightarrow>
         (case y of
            (Inl err, m') \<Rightarrow> True
          | (Inr d, m') \<Rightarrow> d = 2 \<or> (i \<noteq> 0 \<and> i < 256 \<and> d = 1 + i))"
proof (rule random_loop.raw_induct [where P = "\<lambda>byteLen msbitLen m i y.
    byteLen = 2 \<longrightarrow> msbitLen = 1 \<longrightarrow> inc m = 256 \<longrightarrow> length (rand m) = 8 \<longrightarrow>
    (case y of
       (Inl err, m') \<Rightarrow> True
     | (Inr d, m') \<Rightarrow> d = 2 \<or> (i \<noteq> 0 \<and> i < 256 \<and> d = 1 + i))", OF _ assms], goal_cases)
  case (1 loop byteLen msbitLen m i y)
  show ?case
  proof (intro impI)
    assume bl: "byteLen = 2" and ml: "msbitLen = 1" and b: "inc m = 256"
      and len: "length (rand m) = 8"
    show "case y of
            (Inl err, m') \<Rightarrow> True
          | (Inr d, m') \<Rightarrow> d = 2 \<or> (i \<noteq> 0 \<and> i < 256 \<and> d = 1 + i)"
    proof (cases "i = 0 \<or> inc m \<le> i")
      case False
      with 1(2) have "y = (Inr (1 + i), m)" by auto
      with False b show ?thesis by auto
    next
      case True
      obtain n e buf r where rf: "ReadFull (Reader m) (take byteLen (rand m)) = ((n, e), buf, r)"
        by (metis prod.exhaust)
      show ?thesis
      proof (cases e)
        case (Some err)
        with True rf 1(2) show ?thesis by auto
      next
        case None
        define xs where "xs = buf @ drop byteLen (rand m)"
        define rnd where "rnd = xs[0 := xs ! 0 AND word_of_int (push_bit msbitLen 1 - 1)]"
        from ReadFull_length [OF rf [unfolded None]] len bl have "length buf = 2" by simp
        with len bl have lx: "length xs = 8" by (simp add: xs_def)
        from True rf None 1(2)
        have call: "loop byteLen msbitLen (m\<lparr>Reader := r, rand := rnd\<rparr>) (candidate byteLen rnd i) = Some y"
          by (simp add: rnd_def xs_def Let_def)
        have cand: "candidate byteLen rnd i =
            ucast (ucast (xs ! 0 AND 1) OR push_bit 8 (ucast (xs ! 1)) :: 16 word)"
          using lx by (simp add: candidate_def bl ml rnd_def LittleEndian_Uint16_def)
        from 1(1) [OF call] bl ml b lx
        have "case y of
                (Inl err, m') \<Rightarrow> True
              | (Inr d, m') \<Rightarrow> d = 2 \<or>
                  (candidate byteLen rnd i \<noteq> 0 \<and> candidate byteLen rnd i < 256 \<and>
                   d = 1 + candidate byteLen rnd i)"
          by (simp add: rnd_def)
        then show ?thesis
          using candidate_256 [of "xs ! 0" "xs ! 1"] unfolding cand
          by (auto split: prod.splits sum.splits)
      qed
    qed
  qed
qed

lemma Len64_256: "Len64 256 = 9"
  by (simp add: Len64_def bit_length.simps)

text \<open>So whenever a generator with the bound 256 and no \<^verbatim>\<open>Int63n\<close> returns an
  increment, the increment is 2, where \<^verbatim>\<open>1 + Int63n(256)\<close> ranges over 1 to 256. (The
  loop need not return: on a source of nothing but \<open>0x01\<close> every candidate is 257.)\<close>

lemma sampling_bound_256:
  assumes "rng m = None" "inc m = 256" "length (rand m) = 8"
    and "random m = Some (Returns (Inr d, m'))"
  shows "d = 2"
proof -
  from assms(1,2,4) have "random_loop 2 1 m 0 = Some (Inr d, m')"
    by (simp add: random_def Len64_256 word_le_nat_alt)
  from random_loop_256 [OF this] assms(2,3) show ?thesis by simp
qed

section \<open>All-zero entropy\<close>

text \<open>The generator tells "no entropy stored yet" by the stored entropy being zero. After
  a call that read ten zero bytes the next call for the same tick therefore reads afresh
  instead of incrementing, and may return the same entropy again.\<close>

lemma zero_entropy_first:
  "MonotonicRead (Monotonic zeros_reader None 0) 5 (replicate 10 0) =
     Some (Returns (None, replicate 10 0,
       (Monotonic zeros_reader None 0)\<lparr>Reader := zeros_reader\<lparr>off := 10\<rparr>, ms := 5\<rparr>))"
  by (simp add: zeros_reader_def eval_generator)

lemma zero_entropy_second:
  "MonotonicRead ((Monotonic zeros_reader None 0)\<lparr>Reader := zeros_reader\<lparr>off := 10\<rparr>, ms := 5\<rparr>) 5
       (replicate 10 0) =
     Some (Returns (None, replicate 10 0,
       (Monotonic zeros_reader None 0)\<lparr>Reader := zeros_reader\<lparr>off := 20\<rparr>, ms := 5\<rparr>))"
  by (simp add: zeros_reader_def eval_generator)

section \<open>The largest increment of the default generator\<close>




text \<open>The constructor stores \<^verbatim>\<open>math.MaxUint32\<close> for the bound 0: passing 0 gives the
  generator that passing \<open>2^32 - 1\<close> gives.\<close>

lemma Monotonic_default: "Monotonic e g 0 = Monotonic e g 0xFFFFFFFF"
  by (simp add: Monotonic_def)

text \<open>The loop at the bound 256 on a source that starts with the bytes \<open>01 00\<close>.\<close>

lemma sampling_bound_256_example:
  "random (Monotonic low_reader None 256) =
     Some (Returns (Inr 2,
       (Monotonic low_reader None 256)\<lparr>Reader := low_reader\<lparr>off := 2\<rparr>,
          rand := [1, 0, 0, 0, 0, 0, 0, 0]\<rparr>))"
  by (simp add: low_reader_def eval_generator random_loop.simps word_le_nat_alt)

section \<open>Consecutive calls for one tick\<close>

lemma consecutive_calls:
  assumes first: "MonotonicRead m t p = Some (Returns (None, p1, m1))"
    and second: "MonotonicRead m1 t q = Some (Returns (None, p2, m2))"
    and nonzero: "be_val (take 10 p1) \<noteq> 0"
    and contract: "\<forall>g. rng m = Some g \<longrightarrow> math_rand g"
  shows "(\<exists>d. be_val (take 10 p2) = be_val (take 10 p1) + d \<and> 1 \<le> d \<and> d \<le> max 1 (unat (inc m))) \<and>
         bytes_Compare (take 10 p1) (take 10 p2) = - 1 \<and>
         10 \<le> length p1 \<and> 10 \<le> length p2 \<and> inc m1 = inc m \<and>
         (\<forall>g. rng m1 = Some g \<longrightarrow> math_rand g)"
proof -
  from MonotonicRead_success [OF first]
  have s1: "ms m1 = t" "be_val (take 10 p1) = val80 (entropy m1)" "inc m1 = inc m"
    "map_option gen (rng m1) = map_option gen (rng m)" "10 \<le> length p1"
    by simp_all
  from nonzero s1(2) have nz: "\<not> IsZero80 (entropy m1)" by (simp add: IsZero80_val80)
  from MonotonicRead_same_tick_inv [OF nz s1(1) second] obtain d m0 where
    r: "random m1 = Some (Returns (Inr d, m0))" and
    no: "\<not> snd (Add (entropy m1) d)" and
    e2: "entropy m2 = fst (Add (entropy m1) d)"
    by blast
  have c1: "\<forall>g. rng m1 = Some g \<longrightarrow> math_rand g"
  proof (intro allI impI)
    fix g1 assume g1: "rng m1 = Some g1"
    with s1(4) obtain g where g: "rng m = Some g" and eq: "gen g = gen g1"
      by (cases "rng m") auto
    from contract g have "math_rand g" by simp
    then show "math_rand g1" unfolding math_rand_def eq .
  qed
  from random_result [OF r c1] s1(3)
  have d: "1 \<le> unat d" "unat d \<le> max 1 (unat (inc m))" by simp_all
  from Add_cases [of "entropy m1" d] no
  have "val80 (fst (Add (entropy m1) d)) = val80 (entropy m1) + unat d"
    by (simp add: val80_def)
  moreover from MonotonicRead_success [OF second]
  have "be_val (take 10 p2) = val80 (entropy m2)" "10 \<le> length p2" by simp_all
  ultimately have sum: "be_val (take 10 p2) = be_val (take 10 p1) + unat d"
    and l2: "10 \<le> length p2"
    using e2 s1(2) by simp_all
  have "bytes_Compare (take 10 p1 @ []) (take 10 p2 @ []) = - 1"
    using sum d(1) s1(5) l2 by (intro bytes_Compare_less) simp_all
  with sum d s1(3,5) l2 c1 show ?thesis by auto
qed

text \<open>A run of successful calls for one tick, each after the other: every entry of the list
  gives the buffer passed to a call, the buffer it returned and the generator it left. The
  entropy written grows strictly along such a run, so no two of its values are equal.\<close>

lemma same_tick_run_successive:
  assumes "MonotonicRead m t q = Some (Returns (None, p, m1))"
    and "calls_ok m1 t cs"
    and "be_val (take 10 p) \<noteq> 0"
    and "\<forall>g. rng m = Some g \<longrightarrow> math_rand g"
  shows "successively (\<lambda>a b. be_val (take 10 a) < be_val (take 10 b))
           (p # map (\<lambda>c. fst (snd c)) cs)"
  using assms
proof (induction cs arbitrary: m q p m1)
  case Nil
  show ?case by simp
next
  case (Cons c cs)
  obtain q2 p2 m2 where c: "c = (q2, p2, m2)" by (cases c) auto
  from Cons.prems(2) have second: "MonotonicRead m1 t q2 = Some (Returns (None, p2, m2))"
    and rest: "calls_ok m2 t cs" by (simp_all add: c)
  from consecutive_calls [OF Cons.prems(1) second Cons.prems(3,4)]
  have lt: "be_val (take 10 p) < be_val (take 10 p2)" and nz: "be_val (take 10 p2) \<noteq> 0"
    and c1: "\<forall>g. rng m1 = Some g \<longrightarrow> math_rand g"
    by auto
  from Cons.IH [OF second rest nz c1] lt show ?case by (simp add: c)
qed

lemma same_tick_run:
  assumes "MonotonicRead m t q = Some (Returns (None, p, m1))"
    and "calls_ok m1 t cs"
    and "be_val (take 10 p) \<noteq> 0"
    and "\<forall>g. rng m = Some g \<longrightarrow> math_rand g"
  shows "sorted_wrt (\<lambda>a b. be_val (take 10 a) < be_val (take 10 b))
           (p # map (\<lambda>c. fst (snd c)) cs) \<and>
         distinct (map (take 10) (p # map (\<lambda>c. fst (snd c)) cs))"
proof -
  let ?R = "\<lambda>a b :: byte list. be_val (take 10 a) < be_val (take 10 b)"
  have "transp ?R" by (auto simp: transp_def)
  with same_tick_run_successive [OF assms]
  have s: "sorted_wrt ?R (p # map (\<lambda>c. fst (snd c)) cs)"
    by (simp only: successively_conv_sorted_wrt)
  then have "sorted_wrt (\<lambda>a b. a \<noteq> b) (map (take 10) (p # map (\<lambda>c. fst (snd c)) cs))"
    unfolding sorted_wrt_map by (rule sorted_wrt_mono_rel [rotated]) auto
  then have "distinct (map (take 10) (p # map (\<lambda>c. fst (snd c)) cs))"
    by (simp only: distinct_conv_nth sorted_wrt_iff_nth_less) (metis nat_neq_iff)
  with s show ?thesis by simp
qed

section \<open>Claims about the codec\<close>

text \<open>
  C10. For every 16-byte identifier, \<^verbatim>\<open>String\<close> gives 26 characters of the alphabet, the
  first of them between \<open>0\<close> and \<open>7\<close>, and both \<^verbatim>\<open>Parse\<close> and \<^verbatim>\<open>ParseStrict\<close> take the
  string back to the identifier without error.
\<close>

theorem String_Parse_roundtrip:
  assumes "length uid = 16"
  shows "length (String uid) = 26 \<and>
         set (String uid) \<subseteq> set Encoding \<and>
         String uid ! 0 \<in> set ''01234567'' \<and>
         Parse (OfString (String uid)) = (uid, None) \<and>
         ParseStrict (OfString (String uid)) = (uid, None)"
proof -
  have len: "length (String uid) = 26" by (simp add: String_syms length_syms)
  then have ne: "String uid \<noteq> []" by auto
  have alph: "set (String uid) \<subseteq> set Encoding"
    unfolding String_syms using syms_lt32 [of _ uid] by (auto intro: Encoding_nth_mem)
  have "String uid ! 0 = Encoding ! unat (syms uid ! 0)"
    by (simp add: String_syms length_syms)
  then have first: "String uid ! 0 \<in> set ''01234567''"
    using Encoding_digits [OF syms_0_lt8, of uid] by simp
  show ?thesis
    using len alph first ne
    by (simp add: Parse_def ParseStrict_def parse_String [OF assms])
qed

theorem String_Parse_roundtrip_witness:
  "String vector_id = ''01BX5ZZKBKACTAV9WEVGEMMVRZ'' \<and>
   Parse (OfString ''01BX5ZZKBKACTAV9WEVGEMMVRZ'') = (vector_id, None) \<and>
   ParseStrict (OfString ''01BX5ZZKBKACTAV9WEVGEMMVRZ'') = (vector_id, None)"
proof -
  have l: "length vector_id = 16" by (simp add: vector_id_def)
  have s: "String vector_id = ''01BX5ZZKBKACTAV9WEVGEMMVRZ''" by code_simp
  from String_Parse_roundtrip [OF l] show ?thesis unfolding s by simp
qed

text \<open>
  C3, as stated: decoding any 26-character string over the alphabet and encoding the result
  gives the upper case of the string. It fails where the first character is above \<open>7\<close>:
  the decoder answers \<^verbatim>\<open>ErrOverflow\<close> and the identifier stays the zero value, whose text
  is 26 zeros.
\<close>

theorem decode_encode_counterexample:
  "length overflow_text = 26 \<and>
   list_all (\<lambda>c. c \<in> set Encoding) overflow_text \<and>
   Parse (OfString overflow_text) = (Zero, Some ErrOverflow) \<and>
   ParseStrict (OfString overflow_text) = (Zero, Some ErrOverflow) \<and>
   String Zero \<noteq> map to_upper overflow_text"
  by code_simp

text \<open>
  C3, amended: for every 26-character string whose characters all belong to the alphabet,
  in either case, and whose first character is one of \<open>0\<close> to \<open>7\<close>, \<^verbatim>\<open>Parse\<close> and
  \<^verbatim>\<open>ParseStrict\<close> succeed and the text of the identifier they return is the upper case of
  the string.
\<close>

theorem decode_encode_roundtrip:
  assumes "length s = 26"
    and "\<forall>c\<in>set s. to_upper c \<in> set Encoding"
    and "s ! 0 \<in> set ''01234567''"
  shows "snd (Parse (OfString s)) = None \<and>
         String (fst (Parse (OfString s))) = map to_upper s \<and>
         snd (ParseStrict (OfString s)) = None \<and>
         String (fst (ParseStrict (OfString s))) = map to_upper s"
proof -
  from assms(1) have "s \<noteq> []" by auto
  then show ?thesis
    using parse_alphabet [OF assms, of False] parse_alphabet [OF assms, of True]
    by (simp add: Parse_def ParseStrict_def split_beta)
qed

theorem decode_encode_roundtrip_witness:
  "String (fst (Parse (OfString lower_text))) = ''01BX5ZZKBKACTAV9WEVGEMMVRZ'' \<and>
   String (fst (ParseStrict (OfString lower_text))) = ''01BX5ZZKBKACTAV9WEVGEMMVRZ'' \<and>
   snd (Parse (OfString lower_text)) = None \<and>
   snd (ParseStrict (OfString lower_text)) = None"
proof -
  have l: "length lower_text = 26" by (simp add: lower_text_def)
  have "list_all (\<lambda>c. to_upper c \<in> set Encoding) lower_text" by code_simp
  then have a: "\<forall>c\<in>set lower_text. to_upper c \<in> set Encoding" by (simp add: list_all_iff)
  have f: "lower_text ! 0 \<in> set ''01234567''" by (simp add: lower_text_def)
  have u: "map to_upper lower_text = ''01BX5ZZKBKACTAV9WEVGEMMVRZ''" by code_simp
  from decode_encode_roundtrip [OF l a f] show ?thesis unfolding u by simp
qed




text \<open>
  C9, as stated: \<^verbatim>\<open>Parse\<close> and \<^verbatim>\<open>ParseStrict\<close> fail with \<^verbatim>\<open>ErrDataSize\<close> on every
  string whose length is not 26. \<^verbatim>\<open>Parse\<close> has a case of its own for the empty string,
  which it answers with the zero identifier and no error.
\<close>

theorem Parse_empty_counterexample:
  "length ([] :: string) \<noteq> 26 \<and> Parse (OfString []) = (Zero, None)"
  by (simp add: Parse_def)

text \<open>
  C9, amended: \<^verbatim>\<open>ParseStrict\<close> fails with \<^verbatim>\<open>ErrDataSize\<close> on every string whose length
  is not 26, and \<^verbatim>\<open>Parse\<close> on every such string but the empty one, for which it returns
  the zero identifier and no error. The identifier returned with the error is the zero
  value.
\<close>

theorem Parse_wrong_length:
  assumes "length s \<noteq> 26"
  shows "ParseStrict (OfString s) = (Zero, Some ErrDataSize) \<and>
         Parse (OfString s) = (if s = [] then (Zero, None) else (Zero, Some ErrDataSize))"
  using assms by (simp add: Parse_def ParseStrict_def parse_def EncodedSize_def)

theorem Parse_wrong_length_witness:
  "ParseStrict (OfString ''01BX5ZZKBKACTAV9WEVGEMMVR'') = (Zero, Some ErrDataSize) \<and>
   Parse (OfString ''01BX5ZZKBKACTAV9WEVGEMMVR'') = (Zero, Some ErrDataSize) \<and>
   ParseStrict (OfString []) = (Zero, Some ErrDataSize)"
proof -
  have a: "length ''01BX5ZZKBKACTAV9WEVGEMMVR'' \<noteq> 26" by simp
  have b: "length ([] :: string) \<noteq> 26" by simp
  from Parse_wrong_length [OF a] Parse_wrong_length [OF b] show ?thesis by simp
qed

section \<open>Claims about construction\<close>

text \<open>
  C4. For timestamps \<open>t1 < t2\<close>, both at most \<open>2^48 - 1\<close>, whatever the entropy sources
  supply (and whether or not they fail), the identifier \<^verbatim>\<open>New\<close> returns for \<open>t1\<close>
  compares strictly less than the one it returns for \<open>t2\<close>.
\<close>

theorem New_time_order:
  assumes "t1 < t2" and "t2 \<le> 0xFFFFFFFFFFFF"
    and "New t1 e1 = Some (Returns ((id1, err1), e1'))"
    and "New t2 e2 = Some (Returns ((id2, err2), e2'))"
  shows "Compare id1 id2 = - 1"
proof -
  from assms(1,2) have le: "t1 \<le> maxTime" "t2 \<le> maxTime" by (simp_all add: maxTime_value)
  from New_time_prefix [OF le(1) assms(3)] obtain r1 where r1: "id1 = digits (unat t1) 6 @ r1" ..
  from New_time_prefix [OF le(2) assms(4)] obtain r2 where r2: "id2 = digits (unat t2) 6 @ r2" ..
  have "unat t2 < 256 ^ 6" using assms(2) by (simp add: word_le_nat_alt)
  moreover have "unat t1 < unat t2" using assms(1) by (simp add: word_less_nat_alt)
  ultimately have "be_val (digits (unat t1) 6) < be_val (digits (unat t2) 6)"
    by (simp add: be_val_digits)
  then show ?thesis
    unfolding Compare_def r1 r2 by (intro bytes_Compare_less) (simp_all add: length_digits)
qed

theorem New_time_order_witness:
  "New 1 (Plain ff_reader) =
     Some (Returns (([0, 0, 0, 0, 0, 1, 0xFF, 0xFF, 0xFF, 0xFF, 0xFF, 0xFF, 0xFF, 0xFF, 0xFF, 0xFF],
       None), Plain (ff_reader\<lparr>off := 10\<rparr>))) \<and>
   New 2 NoEntropy = Some (Returns (([0, 0, 0, 0, 0, 2, 0, 0, 0, 0, 0, 0, 0, 0, 0, 0], None), NoEntropy)) \<and>
   Compare [0, 0, 0, 0, 0, 1, 0xFF, 0xFF, 0xFF, 0xFF, 0xFF, 0xFF, 0xFF, 0xFF, 0xFF, 0xFF]
     [0, 0, 0, 0, 0, 2, 0, 0, 0, 0, 0, 0, 0, 0, 0, 0] = - 1"
proof -
  have a: "New 1 (Plain ff_reader) =
     Some (Returns (([0, 0, 0, 0, 0, 1, 0xFF, 0xFF, 0xFF, 0xFF, 0xFF, 0xFF, 0xFF, 0xFF, 0xFF, 0xFF],
       None), Plain (ff_reader\<lparr>off := 10\<rparr>)))"
    by (simp add: New_def SetTime_def maxTime_value Zero_def ReadFull_def ff_reader_def
        eval_lists)
  have b: "New 2 NoEntropy =
     Some (Returns (([0, 0, 0, 0, 0, 2, 0, 0, 0, 0, 0, 0, 0, 0, 0, 0], None), NoEntropy))"
    by (simp add: New_def SetTime_def maxTime_value Zero_def eval_lists)
  have c: "(1::uint64) < 2" "(2::uint64) \<le> 0xFFFFFFFFFFFF" by simp_all
  from New_time_order [OF c a b] a b show ?thesis by simp
qed

section \<open>Claims about the monotonic generator\<close>

text \<open>
  C1, as stated: of two consecutive successful calls for the same tick, the second writes
  entropy that exceeds the first's by an amount in \<open>[1, incrementBound)\<close>. With the bound
  2 and a source of ones the second call adds exactly 2, the bound itself. And over a
  source of zero bytes (the \<^verbatim>\<open>zeroReader\<close> of the command line tool) both calls write
  ten zero bytes: the second adds nothing.
\<close>

theorem same_tick_increment_counterexample:
  "MonotonicRead gen_two 5 (replicate 10 0) = Some (Returns (None, replicate 10 1, gen_two_1)) \<and>
   MonotonicRead gen_two_1 5 (replicate 10 0) =
     Some (Returns (None, [1, 1, 1, 1, 1, 1, 1, 1, 1, 3], gen_two_2)) \<and>
   inc gen_two = 2 \<and>
   be_val [1, 1, 1, 1, 1, 1, 1, 1, 1, 3] = be_val (replicate 10 1) + 2 \<and>
   MonotonicRead (Monotonic zeros_reader None 0) 5 (replicate 10 0) =
     Some (Returns (None, replicate 10 0,
       (Monotonic zeros_reader None 0)\<lparr>Reader := zeros_reader\<lparr>off := 10\<rparr>, ms := 5\<rparr>)) \<and>
   MonotonicRead ((Monotonic zeros_reader None 0)\<lparr>Reader := zeros_reader\<lparr>off := 10\<rparr>, ms := 5\<rparr>) 5
       (replicate 10 0) =
     Some (Returns (None, replicate 10 0,
       (Monotonic zeros_reader None 0)\<lparr>Reader := zeros_reader\<lparr>off := 20\<rparr>, ms := 5\<rparr>))"
  using gen_two_first gen_two_second zero_entropy_first zero_entropy_second
  by (simp add: gen_two_def Monotonic_def eval_lists)

text \<open>
  C1, amended: of two consecutive successful calls for the same tick, where the first wrote
  entropy that is not all zero, the second writes entropy whose 80-bit value exceeds the
  first's by an amount between 1 and the increment bound, both included (exactly 1 when the
  bound is 0 or 1); so the first compares strictly below the second. An \<^verbatim>\<open>Int63n\<close> in use
  is taken to keep the contract of \<^verbatim>\<open>math/rand\<close>.
\<close>

theorem same_tick_increment:
  assumes first: "MonotonicRead m t p = Some (Returns (None, p1, m1))"
    and second: "MonotonicRead m1 t q = Some (Returns (None, p2, m2))"
    and nonzero: "be_val (take 10 p1) \<noteq> 0"
    and contract: "\<forall>g. rng m = Some g \<longrightarrow> math_rand g"
  shows "(\<exists>d. be_val (take 10 p2) = be_val (take 10 p1) + d \<and> 1 \<le> d \<and> d \<le> max 1 (unat (inc m))) \<and>
         bytes_Compare (take 10 p1) (take 10 p2) = - 1"
  using consecutive_calls [OF assms] by simp

theorem same_tick_increment_witness:
  "(\<exists>d. be_val (take 10 [1, 1, 1, 1, 1, 1, 1, 1, 1, 3]) = be_val (take 10 (replicate 10 1)) + d \<and>
        1 \<le> d \<and> d \<le> max 1 (unat (inc gen_two))) \<and>
   bytes_Compare (take 10 (replicate 10 1)) (take 10 [1, 1, 1, 1, 1, 1, 1, 1, 1, 3]) = - 1"
proof -
  have nz: "be_val (take 10 (replicate 10 1)) \<noteq> 0" by (simp add: eval_lists)
  have c: "\<forall>g. rng gen_two = Some g \<longrightarrow> math_rand g"
    by (simp add: gen_two_def Monotonic_def)
  from same_tick_increment [OF gen_two_first gen_two_second nz c] show ?thesis .
qed

text \<open>
  C2, as stated: when the increment overflows the 80 bits, the call returns
  \<^verbatim>\<open>ErrMonotonicOverflow\<close>, leaves the stored entropy unchanged and writes nothing to the
  buffer. \<^verbatim>\<open>Add\<close> works in place and \<^verbatim>\<open>AppendTo\<close> runs whatever the error: after a first
  call that read ten bytes \<open>0xFF\<close>, the second call returns the error, stores the wrapped
  value 0 and overwrites the buffer with it.
\<close>

theorem overflow_state_counterexample:
  "MonotonicRead gen_one 0 (replicate 10 0) =
     Some (Returns (None, replicate 10 0xFF, gen_one_full)) \<and>
   MonotonicRead gen_one_full 0 (replicate 10 0xAA) =
     Some (Returns (Some ErrMonotonicOverflow, replicate 10 0,
       gen_one_full\<lparr>entropy := \<lparr>Hi = 0, Lo = 0\<rparr>\<rparr>)) \<and>
   entropy (gen_one_full\<lparr>entropy := \<lparr>Hi = 0, Lo = 0\<rparr>\<rparr>) \<noteq> entropy gen_one_full \<and>
   replicate 10 (0::byte) \<noteq> replicate 10 0xAA"
  using gen_one_first gen_one_second
  by (simp add: gen_one_full_def eval_lists)

text \<open>
  C2, amended: when a call for the recorded tick, with non-zero stored entropy, draws an
  increment whose sum with the stored entropy reaches \<open>2^80\<close>, it returns
  \<^verbatim>\<open>ErrMonotonicOverflow\<close>; the stored entropy becomes the sum less \<open>2^80\<close>, the rest of
  the state is as the draw left it, and the wrapped value is written to the first ten bytes
  of the buffer, whose other bytes stay.
\<close>

theorem overflow_wraps:
  assumes nonzero: "\<not> IsZero80 (entropy m)" and tick: "ms m = t"
    and draw: "random m = Some (Returns (Inr d, m0))"
    and over: "2 ^ 80 \<le> val80 (entropy m) + unat d"
    and len: "10 \<le> length p"
  shows "\<exists>u p'. MonotonicRead m t p =
           Some (Returns (Some ErrMonotonicOverflow, p', m0\<lparr>entropy := u\<rparr>)) \<and>
         val80 u = val80 (entropy m) + unat d - 2 ^ 80 \<and>
         be_val (take 10 p') = val80 u \<and> drop 10 p' = drop 10 p \<and> length p' = length p"
proof -
  let ?u = "fst (Add (entropy m) d)"
  from len obtain p' where a: "AppendTo ?u p = Returns p'" by (simp add: AppendTo_def)
  have "unat d < 2 ^ 64" using unsigned_less [of d] by simp
  then have b: "val80 (entropy m) + unat d < 2 ^ 80 + 2 ^ 80"
    using val80_bound [of "entropy m"] by simp
  from Add_cases [of "entropy m" d] over
  have ov: "snd (Add (entropy m) d)" and "val80 ?u = (val80 (entropy m) + unat d) mod 2 ^ 80"
    by (simp_all add: val80_def)
  moreover have "(val80 (entropy m) + unat d) mod 2 ^ 80 = val80 (entropy m) + unat d - 2 ^ 80"
    using over b by (simp add: mod_if)
  ultimately have v: "val80 ?u = val80 (entropy m) + unat d - 2 ^ 80" by simp
  have "MonotonicRead m t p = Some (Returns (Some ErrMonotonicOverflow, p', m0\<lparr>entropy := ?u\<rparr>))"
    using MonotonicRead_same_tick [OF nonzero tick draw, of p] a ov by simp
  with v AppendTo_value [OF a] show ?thesis by auto
qed

theorem overflow_wraps_witness:
  "\<exists>u p'. MonotonicRead gen_one_full 0 (replicate 10 0xAA) =
       Some (Returns (Some ErrMonotonicOverflow, p', gen_one_full\<lparr>entropy := u\<rparr>)) \<and>
     val80 u = val80 (entropy gen_one_full) + unat (1::uint64) - 2 ^ 80 \<and>
     be_val (take 10 p') = val80 u \<and> drop 10 p' = drop 10 (replicate 10 0xAA) \<and>
     length p' = length (replicate 10 (0xAA::byte))"
proof -
  have a: "\<not> IsZero80 (entropy gen_one_full)" by (simp add: gen_one_full_def IsZero80_def)
  have b: "ms gen_one_full = 0" by (simp add: gen_one_full_def)
  have c: "random gen_one_full = Some (Returns (Inr 1, gen_one_full))"
    by (simp add: gen_one_full_def gen_one_def Monotonic_def random_def)
  have d: "2 ^ 80 \<le> val80 (entropy gen_one_full) + unat (1::uint64)"
    by (simp add: gen_one_full_def val80_def)
  have e: "10 \<le> length (replicate 10 (0xAA::byte))" by simp
  from overflow_wraps [OF a b c d e] show ?thesis .
qed



text \<open>
  C8: the draw through \<^verbatim>\<open>Int63n\<close> and the byte-sampling loop give increments from the
  same set. On the code they do not: the loop rejects the candidate 0 and then adds 1, so
  that for every bound above 1 it returns at least 2, where \<^verbatim>\<open>1 + Int63n(inc)\<close> starts
  at 1. (At the bound 256 an increment the loop returns can only be 2:
  \<open>sampling_bound_256\<close> above.)
\<close>

theorem sampling_loop_skips_one:
  assumes "rng m = None" and "1 < inc m"
    and "random m = Some (Returns (Inr d, m'))"
  shows "2 \<le> unat d \<and> unat d \<le> unat (inc m)"
proof -
  from assms(1) have "\<forall>g. rng m = Some g \<longrightarrow> math_rand g" by simp
  from random_result [OF assms(3) this] assms(1,2) show ?thesis
    by (simp add: word_less_nat_alt)
qed

theorem sampling_loop_skips_one_witness:
  "random gen_two_1 = Some (Returns (Inr 2,
     gen_two_1\<lparr>Reader := ones_reader\<lparr>off := 11\<rparr>, rand := [1, 0, 0, 0, 0, 0, 0, 0]\<rparr>)) \<and>
   2 \<le> unat (2::uint64) \<and> unat (2::uint64) \<le> unat (inc gen_two_1) \<and>
   math_rand zero_rng \<and>
   random (Monotonic ones_reader (Some zero_rng) 2) =
     Some (Returns (Inr 1,
       (Monotonic ones_reader (Some zero_rng) 2)\<lparr>rng := Some (zero_rng\<lparr>calls := 1\<rparr>)\<rparr>))"
proof -
  have a: "rng gen_two_1 = None" "1 < inc gen_two_1"
    by (simp_all add: gen_two_1_def gen_two_def Monotonic_def)
  from sampling_loop_skips_one [OF a gen_two_random] gen_two_random fast_path_one
    math_rand_zero_rng
  show ?thesis by simp
qed

end
